theory Spec2Isabelle
  imports Complex_Main "HOL-Library.Sublist" "HOL-Library.AList"
begin

section \<open>The TrailBlazer planner of \<^verbatim>\<open>highway_env/agent/trailblazer.py\<close>\<close>

text \<open>
  The planner is a tree of mutable Python objects: a \<^verbatim>\<open>MaxNode\<close> owns one \<^verbatim>\<open>AvgNode\<close>
  per action, an \<^verbatim>\<open>AvgNode\<close> owns a list \<^verbatim>\<open>sampled_nodes\<close> of references to
  \<^verbatim>\<open>MaxNode\<close> objects in which the same object occurs once per sample that reached it.
  The embedding keeps the objects in an explicit store: a heap of state objects and a
  heap of node objects, both addressed by their index, and a log of the calls made to the
  generative model. Every method takes the store and returns the store it leaves.

  Numbers: Python and numpy floats are idealised as \<^typ>\<open>real\<close>. Where numpy would produce
  \<^verbatim>\<open>nan\<close> or \<^verbatim>\<open>inf\<close> and carry on (logarithm of a non-positive number, square root of
  a negative one, division of a numpy float by zero), the model has no such value and
  stops with \<open>NonFinite\<close>; no theorem below speaks about such a run. The typing assumed is
  the one of the repository's own test: \<^verbatim>\<open>gamma\<close>, \<^verbatim>\<open>delta\<close>, \<^verbatim>\<open>epsilon\<close> and the rewards
  are Python numbers, whose division by zero raises; \<^verbatim>\<open>eta\<close>, \<^verbatim>\<open>U\<close>, the planner's
  \<^verbatim>\<open>m\<close> and every precision handed down the recursion are numpy floats.
\<close>

subsection \<open>Errors and budgets\<close>

text \<open>
  An exception carries the line of \<^verbatim>\<open>trailblazer.py\<close> that raises it, as the traceback
  does. \<open>BadRef\<close> and \<open>OutOfFuel\<close> belong to the model only: a Python reference always
  points to an object of the expected class, and the recursion has no step bound.
\<close>

datatype error =
    ZeroDivisionError nat
  | IndexError nat
  | TypeError nat
  | ValueError nat
  | UnboundLocalError nat
  | NonFinite nat
  | BadRef
  | OutOfFuel

text \<open>
  The budget \<^verbatim>\<open>m\<close> is dynamically typed: the occurrence counts and round counts handed
  down are Python ints, the planner's \<^verbatim>\<open>self.m\<close> is a float. Comparisons and divisions
  work on both, the slice \<^verbatim>\<open>sampled_nodes[:m]\<close> only on an int.
\<close>

datatype budget = IntB int | FloatB real

fun bval :: "budget \<Rightarrow> real" where
  "bval (IntB k) = real_of_int k"
| "bval (FloatB x) = x"

text \<open>\<^verbatim>\<open>xs[:k]\<close> for an int \<open>k\<close>: a negative \<open>k\<close> counts from the end.\<close>

definition py_slice_to :: "'x list \<Rightarrow> int \<Rightarrow> 'x list" where
  "py_slice_to xs k =
     (if 0 \<le> k then take (nat k) xs else take (nat (int (length xs) + k)) xs)"

subsection \<open>The generative model, the nodes and the store\<close>

text \<open>
  The state class is supplied by the caller. \<open>get_actions\<close> is its method of that name,
  \<open>step\<close> its method \<^verbatim>\<open>step(action)\<close>, which returns the reward and leaves the object in
  the next state. A transition may be random: \<open>step s a i\<close> is the outcome of the call
  when \<open>i\<close> calls of the generative model have been made before it, so a stochastic model is
  any function of \<open>i\<close> and a deterministic one ignores it. Equality of states
  (\<^verbatim>\<open>__eq__\<close>) is equality of their values.
\<close>

record ('s, 'a) gen_model =
  get_actions :: "'s \<Rightarrow> 'a list"
  step :: "'s \<Rightarrow> 'a \<Rightarrow> nat \<Rightarrow> real \<times> 's"

type_synonym addr = nat

record 'a MaxNode =
  max_state :: addr
  max_gamma :: real
  max_delta :: real
  max_alpha :: real
  max_eta :: real
  max_K :: nat
  max_children :: "('a \<times> addr) list"

record 'a AvgNode =
  avg_state :: addr
  avg_action :: 'a
  avg_gamma :: real
  avg_delta :: real
  avg_alpha :: real
  avg_eta :: real
  avg_K :: nat
  avg_sampled_nodes :: "addr list"
  avg_r :: real

datatype 'a node = MaxN "'a MaxNode" | AvgN "'a AvgNode"

text \<open>
  \<open>log\<close> records every call of \<^verbatim>\<open>step\<close>: the \<^verbatim>\<open>AvgNode\<close> that made it, the address of
  the state object it was made on, and the reward it returned. The counters
  \<^verbatim>\<open>MaxNode.created\<close> and \<^verbatim>\<open>AvgNode.created\<close> and the \<^verbatim>\<open>print\<close> calls are diagnostic
  and are left out.
\<close>

record ('s, 'a) store =
  states :: "'s list"
  nodes :: "'a node list"
  log :: "(addr \<times> addr \<times> real) list"

definition get_state :: "('s, 'a) store \<Rightarrow> addr \<Rightarrow> error + 's" where
  "get_state st p = (if p < length (states st) then Inr (states st ! p) else Inl BadRef)"

definition get_max :: "('s, 'a) store \<Rightarrow> addr \<Rightarrow> error + 'a MaxNode" where
  "get_max st c =
     (if c < length (nodes st)
      then (case nodes st ! c of MaxN n \<Rightarrow> Inr n | AvgN _ \<Rightarrow> Inl BadRef)
      else Inl BadRef)"

definition get_avg :: "('s, 'a) store \<Rightarrow> addr \<Rightarrow> error + 'a AvgNode" where
  "get_avg st a =
     (if a < length (nodes st)
      then (case nodes st ! a of AvgN n \<Rightarrow> Inr n | MaxN _ \<Rightarrow> Inl BadRef)
      else Inl BadRef)"

definition put_avg :: "addr \<Rightarrow> 'a AvgNode \<Rightarrow> ('s, 'a) store \<Rightarrow> ('s, 'a) store" where
  "put_avg a n st = st\<lparr>nodes := (nodes st)[a := AvgN n]\<rparr>"

subsection \<open>\<^verbatim>\<open>copy.deepcopy\<close> and \<^verbatim>\<open>step\<close> on state objects\<close>

text \<open>\<^verbatim>\<open>copy.deepcopy(self.state)\<close>: a new object with the same value.\<close>

definition deepcopy :: "addr \<Rightarrow> ('s, 'a) store \<Rightarrow> error + (addr \<times> ('s, 'a) store)" where
  "deepcopy p st =
     (case get_state st p of
        Inl e \<Rightarrow> Inl e
      | Inr s \<Rightarrow> Inr (length (states st), st\<lparr>states := states st @ [s]\<rparr>))"

text \<open>
  \<^verbatim>\<open>new_state.step(self.action)\<close>, called by the \<^verbatim>\<open>AvgNode\<close> \<open>a\<close> on the object at \<open>p\<close>: the
  object is mutated in place and the call is logged.
\<close>

definition state_step ::
  "('s, 'a) gen_model \<Rightarrow> addr \<Rightarrow> addr \<Rightarrow> 'a \<Rightarrow> ('s, 'a) store \<Rightarrow> error + (real \<times> ('s, 'a) store)" where
  "state_step M a p act st =
     (case get_state st p of
        Inl e \<Rightarrow> Inl e
      | Inr s \<Rightarrow>
          (case step M s act (length (log st)) of
             (reward, s') \<Rightarrow>
               Inr (reward, st\<lparr>states := (states st)[p := s'],
                                log := log st @ [(a, p, reward)]\<rparr>)))"

subsection \<open>\<^verbatim>\<open>MaxNode.__init__\<close> and \<^verbatim>\<open>AvgNode.__init__\<close>\<close>

text \<open>\<^verbatim>\<open>AvgNode.__init__\<close>: no samples, reward sum 0.\<close>

definition AvgNode_init ::
  "addr \<Rightarrow> 'a \<Rightarrow> real \<Rightarrow> real \<Rightarrow> real \<Rightarrow> real \<Rightarrow> nat \<Rightarrow> 'a AvgNode" where
  "AvgNode_init s act g d al et k =
     \<lparr>avg_state = s, avg_action = act, avg_gamma = g, avg_delta = d, avg_alpha = al,
      avg_eta = et, avg_K = k, avg_sampled_nodes = [], avg_r = 0\<rparr>"

text \<open>
  The loop \<^verbatim>\<open>for action in state.get_actions(): self.children[action] = AvgNode(...)\<close>.
  Each iteration allocates an \<^verbatim>\<open>AvgNode\<close>; the dictionary is an association list in
  insertion order, and assigning to a key that is already there replaces its value in
  place.
\<close>

fun make_children ::
  "addr \<Rightarrow> real \<Rightarrow> real \<Rightarrow> real \<Rightarrow> real \<Rightarrow> nat \<Rightarrow> 'a list \<Rightarrow> ('a \<times> addr) list \<Rightarrow>
   ('s, 'a) store \<Rightarrow> ('a \<times> addr) list \<times> ('s, 'a) store" where
  "make_children s g d al et k [] cs st = (cs, st)"
| "make_children s g d al et k (act # acts) cs st =
     make_children s g d al et k acts (AList.update act (length (nodes st)) cs)
       (st\<lparr>nodes := nodes st @ [AvgN (AvgNode_init s act g d al et k)]\<rparr>)"

text \<open>
  \<^verbatim>\<open>MaxNode(state, gamma, delta, alpha, eta)\<close>: the object is allocated, then its
  children. The node shares the state object \<open>s\<close> with its children.
\<close>

definition MaxNode_init ::
  "('s, 'a) gen_model \<Rightarrow> addr \<Rightarrow> real \<Rightarrow> real \<Rightarrow> real \<Rightarrow> real \<Rightarrow> ('s, 'a) store \<Rightarrow>
   error + (addr \<times> ('s, 'a) store)" where
  "MaxNode_init M s g d al et st =
     (case get_state st s of
        Inl e \<Rightarrow> Inl e
      | Inr sv \<Rightarrow>
          (let k = length (get_actions M sv);
               self = length (nodes st);
               n = \<lparr>max_state = s, max_gamma = g, max_delta = d, max_alpha = al,
                    max_eta = et, max_K = k, max_children = []\<rparr>;
               st0 = st\<lparr>nodes := nodes st @ [MaxN n]\<rparr>
           in (case make_children s g d al et k (get_actions M sv) [] st0 of
                 (cs, st1) \<Rightarrow>
                   Inr (self, st1\<lparr>nodes := (nodes st1)[self := MaxN (n\<lparr>max_children := cs\<rparr>)]\<rparr>))))"

subsection \<open>The sampling loop of \<^verbatim>\<open>AvgNode.run\<close> (lines 67 to 81)\<close>

text \<open>
  The scan \<^verbatim>\<open>for node in self.sampled_nodes: if node.state == new_state\<close>: the first
  sampled node whose state equals the new one.
\<close>

fun find_sampled :: "('s, 'a) store \<Rightarrow> addr \<Rightarrow> addr list \<Rightarrow> error + addr option" where
  "find_sampled st p [] = Inr None"
| "find_sampled st p (c # cs) =
     (case get_max st c of
        Inl e \<Rightarrow> Inl e
      | Inr n \<Rightarrow>
          (case get_state st (max_state n) of
             Inl e \<Rightarrow> Inl e
           | Inr s \<Rightarrow>
               (case get_state st p of
                  Inl e \<Rightarrow> Inl e
                | Inr s' \<Rightarrow> if s = s' then Inr (Some c) else find_sampled st p cs)))"

text \<open>\<^verbatim>\<open>self.sampled_nodes.append(c)\<close> and \<^verbatim>\<open>self.r += x\<close> on the node at \<open>a\<close>.\<close>

definition append_sampled :: "addr \<Rightarrow> addr \<Rightarrow> ('s, 'a) store \<Rightarrow> error + ('s, 'a) store" where
  "append_sampled a c st =
     (case get_avg st a of
        Inl e \<Rightarrow> Inl e
      | Inr n \<Rightarrow> Inr (put_avg a (n\<lparr>avg_sampled_nodes := avg_sampled_nodes n @ [c]\<rparr>) st))"

definition add_reward :: "addr \<Rightarrow> real \<Rightarrow> ('s, 'a) store \<Rightarrow> error + ('s, 'a) store" where
  "add_reward a x st =
     (case get_avg st a of
        Inl e \<Rightarrow> Inl e
      | Inr n \<Rightarrow> Inr (put_avg a (n\<lparr>avg_r := avg_r n + x\<rparr>) st))"

text \<open>One iteration of the \<^verbatim>\<open>while\<close> loop: lines 68 to 81.\<close>

definition sample_once ::
  "('s, 'a) gen_model \<Rightarrow> addr \<Rightarrow> ('s, 'a) store \<Rightarrow> error + ('s, 'a) store" where
  "sample_once M a st =
     (case get_avg st a of
        Inl e \<Rightarrow> Inl e
      | Inr n \<Rightarrow>
          (case deepcopy (avg_state n) st of
             Inl e \<Rightarrow> Inl e
           | Inr (new_state, st1) \<Rightarrow>
               (case state_step M a new_state (avg_action n) st1 of
                  Inl e \<Rightarrow> Inl e
                | Inr (new_reward, st2) \<Rightarrow>
                    (case find_sampled st2 new_state (avg_sampled_nodes n) of
                       Inl e \<Rightarrow> Inl e
                     | Inr (Some c) \<Rightarrow>
                         (case append_sampled a c st2 of
                            Inl e \<Rightarrow> Inl e
                          | Inr st3 \<Rightarrow> add_reward a new_reward st3)
                     | Inr None \<Rightarrow>
                         (case MaxNode_init M new_state (avg_gamma n) (avg_delta n)
                                 (avg_alpha n) (avg_eta n) st2 of
                            Inl e \<Rightarrow> Inl e
                          | Inr (c, st3) \<Rightarrow>
                              (case append_sampled a c st3 of
                                 Inl e \<Rightarrow> Inl e
                               | Inr st4 \<Rightarrow> add_reward a new_reward st4))))))"

text \<open>The number of samples the node at \<open>a\<close> holds (0 when \<open>a\<close> is no \<^verbatim>\<open>AvgNode\<close>).\<close>

definition n_sampled :: "('s, 'a) store \<Rightarrow> addr \<Rightarrow> nat" where
  "n_sampled st a = (case get_avg st a of Inl _ \<Rightarrow> 0 | Inr n \<Rightarrow> length (avg_sampled_nodes n))"

lemma make_children_extends:
  "make_children s g d al et k acts cs st = (cs', st') \<Longrightarrow>
   nodes st' = nodes st @ map (\<lambda>act. AvgN (AvgNode_init s act g d al et k)) acts \<and>
   states st' = states st \<and> log st' = log st"
  by (induction acts arbitrary: cs st) auto

lemma MaxNode_init_extends:
  assumes "MaxNode_init M s g d al et st = Inr (c, st')"
  shows "c = length (nodes st) \<and> states st' = states st \<and> log st' = log st \<and>
         length (nodes st) < length (nodes st') \<and>
         (\<forall>q < length (nodes st). nodes st' ! q = nodes st ! q)"
proof -
  from assms obtain sv where sv: "get_state st s = Inr sv"
    by (auto simp: MaxNode_init_def split: sum.splits)
  define n0 :: "'b MaxNode" where
    "n0 = \<lparr>max_state = s, max_gamma = g, max_delta = d, max_alpha = al, max_eta = et,
           max_K = length (get_actions M sv), max_children = []\<rparr>"
  define st0 where "st0 = st\<lparr>nodes := nodes st @ [MaxN n0]\<rparr>"
  obtain cs st1 where mc:
    "make_children s g d al et (length (get_actions M sv)) (get_actions M sv) [] st0 = (cs, st1)"
    by (cases "make_children s g d al et (length (get_actions M sv)) (get_actions M sv) [] st0")
  from assms sv mc have c: "c = length (nodes st)"
    and st': "st' = st1\<lparr>nodes := (nodes st1)[length (nodes st) := MaxN (n0\<lparr>max_children := cs\<rparr>)]\<rparr>"
    by (auto simp: MaxNode_init_def Let_def n0_def st0_def)
  from make_children_extends [OF mc]
  have ext: "nodes st1 = nodes st0 @
               map (\<lambda>act. AvgN (AvgNode_init s act g d al et (length (get_actions M sv))))
                 (get_actions M sv)"
    and same: "states st1 = states st0" "log st1 = log st0"
    by auto
  show ?thesis
    using c st' ext same by (auto simp: st0_def nth_append)
qed

lemma sample_once_n_sampled:
  assumes "sample_once M a st = Inr st'"
  shows "n_sampled st' a = Suc (n_sampled st a)"
proof -
  from assms obtain n where n: "get_avg st a = Inr n"
    by (auto simp: sample_once_def split: sum.splits)
  then have a: "a < length (nodes st)" and na: "nodes st ! a = AvgN n"
    by (auto simp: get_avg_def split: if_splits node.splits)
  from assms n obtain p st1 where dc: "deepcopy (avg_state n) st = Inr (p, st1)"
    by (auto simp: sample_once_def split: sum.splits)
  then have n1: "nodes st1 = nodes st"
    by (auto simp: deepcopy_def split: sum.splits)
  from assms n dc obtain x st2 where ss: "state_step M a p (avg_action n) st1 = Inr (x, st2)"
    by (auto simp: sample_once_def split: sum.splits)
  then have n2: "nodes st2 = nodes st"
    using n1 by (auto simp: state_step_def split: sum.splits prod.splits)
  from assms n dc ss obtain fo where fs: "find_sampled st2 p (avg_sampled_nodes n) = Inr fo"
    by (auto simp: sample_once_def split: sum.splits)
  show ?thesis
  proof (cases fo)
    case (Some c)
    with assms n dc ss fs show ?thesis
      using a na n2
      by (auto simp: sample_once_def append_sampled_def add_reward_def put_avg_def
            get_avg_def n_sampled_def split: sum.splits if_splits node.splits)
  next
    case None
    with assms n dc ss fs obtain c st3 where
      mi: "MaxNode_init M p (avg_gamma n) (avg_delta n) (avg_alpha n) (avg_eta n) st2 = Inr (c, st3)"
      by (auto simp: sample_once_def split: sum.splits)
    from MaxNode_init_extends [OF mi] a na n2
    have a3: "a < length (nodes st3)" and na3: "nodes st3 ! a = AvgN n"
      by auto
    from assms n dc ss fs None mi show ?thesis
      using a na a3 na3
      by (auto simp: sample_once_def append_sampled_def add_reward_def put_avg_def
            get_avg_def n_sampled_def split: sum.splits if_splits node.splits)
  qed
qed

text \<open>
  The loop \<^verbatim>\<open>while len(self.sampled_nodes) < m\<close>. Each iteration appends one sample, so the
  loop ends.
\<close>

function sample_loop ::
  "('s, 'a) gen_model \<Rightarrow> addr \<Rightarrow> real \<Rightarrow> ('s, 'a) store \<Rightarrow> error + ('s, 'a) store" where
  "sample_loop M a m st =
     (case get_avg st a of
        Inl e \<Rightarrow> Inl e
      | Inr n \<Rightarrow>
          if real (length (avg_sampled_nodes n)) < m
          then (case sample_once M a st of
                  Inl e \<Rightarrow> Inl e
                | Inr st1 \<Rightarrow> sample_loop M a m st1)
          else Inr st)"
  by pat_completeness auto
termination
proof (relation "measure (\<lambda>(M, a, m, st). nat \<lceil>m\<rceil> - n_sampled st a)", goal_cases)
  case 1
  show ?case by simp
next
  case (2 M a m st n st1)
  from 2(3) have "n_sampled st1 a = Suc (n_sampled st a)"
    by (rule sample_once_n_sampled)
  moreover from 2(1) have "n_sampled st a = length (avg_sampled_nodes n)"
    by (simp add: n_sampled_def)
  moreover from 2(2) have "length (avg_sampled_nodes n) < nat \<lceil>m\<rceil>"
    by linarith
  ultimately show ?case by simp
qed

declare sample_loop.simps [simp del]

subsection \<open>\<^verbatim>\<open>AvgNode.run\<close>: the parts without recursion\<close>

text \<open>
  Lines 64 to 83: the samples the call works on. When the cache holds more than \<open>m\<close>
  samples they are its first \<open>m\<close>; otherwise the cache is filled up to \<open>m\<close> and taken whole.
\<close>

definition active_nodes ::
  "('s, 'a) gen_model \<Rightarrow> addr \<Rightarrow> budget \<Rightarrow> ('s, 'a) store \<Rightarrow>
   error + (addr list \<times> ('s, 'a) store)" where
  "active_nodes M a m st =
     (case get_avg st a of
        Inl e \<Rightarrow> Inl e
      | Inr n \<Rightarrow>
          if real (length (avg_sampled_nodes n)) > bval m
          then (case m of
                  FloatB _ \<Rightarrow> Inl (TypeError 65)
                | IntB k \<Rightarrow> Inr (py_slice_to (avg_sampled_nodes n) k, st))
          else (case sample_loop M a (bval m) st of
                  Inl e \<Rightarrow> Inl e
                | Inr st1 \<Rightarrow>
                    (case get_avg st1 a of
                       Inl e \<Rightarrow> Inl e
                     | Inr n1 \<Rightarrow> Inr (avg_sampled_nodes n1, st1))))"

text \<open>
  Lines 85 to 93: the distinct sampled nodes in the order of their first occurrence, each
  with the number of its occurrences. \<^verbatim>\<open>uniques.index(s)\<close> compares \<^verbatim>\<open>MaxNode\<close> objects,
  which define no \<^verbatim>\<open>__eq__\<close>, by identity, that is by address. The parallel lists
  \<^verbatim>\<open>uniques\<close> and \<^verbatim>\<open>counts\<close> are one list of pairs.
\<close>

fun bump :: "addr \<Rightarrow> (addr \<times> nat) list \<Rightarrow> (addr \<times> nat) list" where
  "bump s [] = [(s, 1)]"
| "bump s ((u, c) # ucs) = (if u = s then (u, c + 1) # ucs else (u, c) # bump s ucs)"

definition uniq_counts :: "addr list \<Rightarrow> (addr \<times> nat) list" where
  "uniq_counts active = foldl (\<lambda>ucs s. bump s ucs) [] active"

text \<open>Line 99: \<^verbatim>\<open>return self.r/len(self.sampled_nodes) + self.gamma*mu\<close>.\<close>

definition avg_return :: "addr \<Rightarrow> real \<Rightarrow> ('s, 'a) store \<Rightarrow> error + (real \<times> ('s, 'a) store)" where
  "avg_return a mu st =
     (case get_avg st a of
        Inl e \<Rightarrow> Inl e
      | Inr n \<Rightarrow>
          if length (avg_sampled_nodes n) = 0 then Inl (ZeroDivisionError 99)
          else Inr (avg_r n / real (length (avg_sampled_nodes n)) + avg_gamma n * mu, st))"

subsection \<open>\<^verbatim>\<open>MaxNode.run\<close>: the parts without recursion\<close>

text \<open>The loop condition of line 28; \<open>None\<close> is the initial \<^verbatim>\<open>U = np.inf\<close>.\<close>

definition loop_cond :: "'a MaxNode \<Rightarrow> addr list \<Rightarrow> real option \<Rightarrow> real \<Rightarrow> bool" where
  "loop_cond n candidates U epsilon \<longleftrightarrow>
     length candidates > 1 \<and>
     (case U of None \<Rightarrow> True | Some u \<Rightarrow> u \<ge> (1 - max_eta n) * epsilon)"

text \<open>Lines 29 to 31: the confidence radius \<^verbatim>\<open>U\<close> of round \<open>count\<close>.\<close>

definition round_U :: "'a MaxNode \<Rightarrow> nat \<Rightarrow> real \<Rightarrow> error + real" where
  "round_U n count epsilon =
     (if max_delta n * epsilon = 0 then Inl (NonFinite 29)
      else if real (max_K n * count) / (max_delta n * epsilon) \<le> 0 then Inl (NonFinite 29)
      else if max_eta n - max_gamma n = 0 then Inl (NonFinite 30)
      else if count = 0 then Inl (NonFinite 30)
      else
        (let sqr = (ln (real (max_K n * count) / (max_delta n * epsilon)) +
                    max_gamma n / (max_eta n - max_gamma n) + max_alpha n + 1) / real count
         in if max_gamma n = 1 then Inl (ZeroDivisionError 31)
            else if sqr < 0 then Inl (NonFinite 31)
            else Inr (2 / (1 - max_gamma n) * sqrt sqr)))"

text \<open>
  \<^verbatim>\<open>max(mu, key=lambda c: c[1])[1]\<close>: the value of the first pair whose value no later
  pair exceeds; \<^verbatim>\<open>max\<close> of an empty list raises \<^verbatim>\<open>ValueError\<close>.
\<close>

fun py_max_snd :: "('b \<times> real) list \<Rightarrow> real option" where
  "py_max_snd [] = None"
| "py_max_snd (c # cs) = Some (snd (foldl (\<lambda>best x. if snd x > snd best then x else best) c cs))"

text \<open>Line 34: the candidates that stay.\<close>

definition retained :: "real \<Rightarrow> real \<Rightarrow> (addr \<times> real) list \<Rightarrow> real \<Rightarrow> addr list" where
  "retained U et mu mu_sup =
     map fst (filter (\<lambda>c. snd c + 2 * U / (1 - et) \<ge> mu_sup - 2 * U / (1 - et)) mu)"

subsection \<open>\<^verbatim>\<open>AvgNode.run\<close> and \<^verbatim>\<open>MaxNode.run\<close>\<close>

text \<open>
  The two methods call each other, to a depth no argument bounds; the model gives the
  recursion fuel, and running out of it is the result \<open>Inl OutOfFuel\<close>. Fuel is spent by
  a call of a method and by a round of the elimination loop.
  \<^item> \<open>AvgNode_run\<close> is \<^verbatim>\<open>AvgNode.run\<close>;
  \<^item> \<open>run_uniques\<close> is its loop of lines 96 to 98, \<open>mu\<close> the sum so far;
  \<^item> \<open>MaxNode_run\<close> is \<^verbatim>\<open>MaxNode.run\<close>, its candidates the dictionary's values in
    insertion order;
  \<^item> \<open>elim_loop\<close> is its \<^verbatim>\<open>while\<close> loop of lines 28 to 35, which returns the
    candidates left and the estimates of the last round (\<open>None\<close> when no round ran);
  \<^item> \<open>run_candidates\<close> is the list comprehension of line 32.
  The fields \<^verbatim>\<open>gamma\<close>, \<^verbatim>\<open>delta\<close>, \<^verbatim>\<open>alpha\<close>, \<^verbatim>\<open>eta\<close>, \<^verbatim>\<open>K\<close> and \<^verbatim>\<open>children\<close> are never
  assigned after construction, so a method reads them once.
\<close>

function (sequential)
  AvgNode_run ::
    "('s, 'a) gen_model \<Rightarrow> nat \<Rightarrow> addr \<Rightarrow> budget \<Rightarrow> real \<Rightarrow> ('s, 'a) store \<Rightarrow>
     error + (real \<times> ('s, 'a) store)"
and run_uniques ::
    "('s, 'a) gen_model \<Rightarrow> nat \<Rightarrow> (addr \<times> nat) list \<Rightarrow> budget \<Rightarrow> real \<Rightarrow> real \<Rightarrow> real \<Rightarrow>
     ('s, 'a) store \<Rightarrow> error + (real \<times> ('s, 'a) store)"
and MaxNode_run ::
    "('s, 'a) gen_model \<Rightarrow> nat \<Rightarrow> addr \<Rightarrow> budget \<Rightarrow> real \<Rightarrow> ('s, 'a) store \<Rightarrow>
     error + (real \<times> ('s, 'a) store)"
and elim_loop ::
    "('s, 'a) gen_model \<Rightarrow> nat \<Rightarrow> 'a MaxNode \<Rightarrow> addr list \<Rightarrow> nat \<Rightarrow> real option \<Rightarrow>
     (addr \<times> real) list option \<Rightarrow> real \<Rightarrow> ('s, 'a) store \<Rightarrow>
     error + ((addr list \<times> (addr \<times> real) list option) \<times> ('s, 'a) store)"
and run_candidates ::
    "('s, 'a) gen_model \<Rightarrow> nat \<Rightarrow> addr list \<Rightarrow> nat \<Rightarrow> real \<Rightarrow> ('s, 'a) store \<Rightarrow>
     error + ((addr \<times> real) list \<times> ('s, 'a) store)"
where
  "AvgNode_run M 0 a m epsilon st = Inl OutOfFuel"
| "AvgNode_run M (Suc f) a m epsilon st =
     (case get_avg st a of
        Inl e \<Rightarrow> Inl e
      | Inr n \<Rightarrow>
          if avg_gamma n = 1 then Inl (ZeroDivisionError 62)
          else if epsilon \<ge> 1 / (1 - avg_gamma n) then Inr (0, st)
          else
            (case active_nodes M a m st of
               Inl e \<Rightarrow> Inl e
             | Inr (active, st1) \<Rightarrow>
                 (case run_uniques M f (uniq_counts active) m epsilon (avg_gamma n) 0 st1 of
                    Inl e \<Rightarrow> Inl e
                  | Inr (mu, st2) \<Rightarrow> avg_return a mu st2)))"
| "run_uniques M f [] m epsilon g mu st = Inr (mu, st)"
| "run_uniques M f ((u, c) # ucs) m epsilon g mu st =
     (if g = 0 then Inl (NonFinite 97)
      else
        (case MaxNode_run M f u (IntB (int c)) (epsilon / g) st of
           Inl e \<Rightarrow> Inl e
         | Inr (nu, st1) \<Rightarrow>
             if bval m = 0
             then Inl (case m of IntB _ \<Rightarrow> ZeroDivisionError 98 | FloatB _ \<Rightarrow> NonFinite 98)
             else run_uniques M f ucs m epsilon g (mu + real c / bval m * nu) st1))"
| "MaxNode_run M 0 c m epsilon st = Inl OutOfFuel"
| "MaxNode_run M (Suc f) c m epsilon st =
     (case get_max st c of
        Inl e \<Rightarrow> Inl e
      | Inr n \<Rightarrow>
          (case elim_loop M f n (map snd (max_children n)) 1 None None epsilon st of
             Inl e \<Rightarrow> Inl e
           | Inr ((candidates, mu), st1) \<Rightarrow>
               if length candidates > 1
               then (case mu of
                       None \<Rightarrow> Inl (UnboundLocalError 38)
                     | Some mu' \<Rightarrow>
                         (case py_max_snd mu' of
                            None \<Rightarrow> Inl (ValueError 38)
                          | Some v \<Rightarrow> Inr (v, st1)))
               else (case candidates of
                       [] \<Rightarrow> Inl (IndexError 40)
                     | b # _ \<Rightarrow> AvgNode_run M f b m (max_eta n * epsilon) st1)))"
| "elim_loop M 0 n candidates count U mu epsilon st =
     (if loop_cond n candidates U epsilon then Inl OutOfFuel
      else Inr ((candidates, mu), st))"
| "elim_loop M (Suc f) n candidates count U mu epsilon st =
     (if loop_cond n candidates U epsilon
      then
        (case round_U n count epsilon of
           Inl e \<Rightarrow> Inl e
         | Inr U' \<Rightarrow>
             if max_eta n = 1 then Inl (NonFinite 32)
             else
               (case run_candidates M f candidates count
                       (U' * max_eta n / (1 - max_eta n)) st of
                  Inl e \<Rightarrow> Inl e
                | Inr (mu', st1) \<Rightarrow>
                    (case py_max_snd mu' of
                       None \<Rightarrow> Inl (ValueError 33)
                     | Some mu_sup \<Rightarrow>
                         elim_loop M f n (retained U' (max_eta n) mu' mu_sup) (count + 1)
                           (Some U') (Some mu') epsilon st1)))
      else Inr ((candidates, mu), st))"
| "run_candidates M f [] count e st = Inr ([], st)"
| "run_candidates M f (b # bs) count e st =
     (case AvgNode_run M f b (IntB (int count)) e st of
        Inl err \<Rightarrow> Inl err
      | Inr (v, st1) \<Rightarrow>
          (case run_candidates M f bs count e st1 of
             Inl err \<Rightarrow> Inl err
           | Inr (rest, st2) \<Rightarrow> Inr ((b, v) # rest, st2)))"
  by pat_completeness auto
termination
  by (relation "inv_image (less_than <*lex*> less_than) (\<lambda>x. case x of
        Inl (Inl (M, f, a, m, e, st)) \<Rightarrow> (f, 0)
      | Inl (Inr (M, f, ucs, m, e, g, mu, st)) \<Rightarrow> (f, 1 + length ucs)
      | Inr (Inl (M, f, c, m, e, st)) \<Rightarrow> (f, 0)
      | Inr (Inr (Inl (M, f, n, cs, k, U, mu, e, st))) \<Rightarrow> (f, 0)
      | Inr (Inr (Inr (M, f, bs, k, e, st))) \<Rightarrow> (f, 1 + length bs))")
    auto

subsection \<open>The planner \<^verbatim>\<open>TrailBlazer\<close>\<close>

text \<open>
  \<^verbatim>\<open>np.log\<close> gives \<^verbatim>\<open>nan\<close> or \<^verbatim>\<open>-inf\<close> on a non-positive argument (\<open>None\<close>), and Python's
  \<^verbatim>\<open>max(a, y)\<close> keeps \<open>a\<close> unless \<^verbatim>\<open>y > a\<close>, which is false for both.
\<close>

definition np_log :: "real \<Rightarrow> real option" where
  "np_log x = (if x > 0 then Some (ln x) else None)"

definition py_max :: "real \<Rightarrow> real option \<Rightarrow> real" where
  "py_max a y = (case y of None \<Rightarrow> a | Some v \<Rightarrow> if v > a then v else a)"

text \<open>Line 107: \<^verbatim>\<open>np.power(self.gamma, 1/max(2, np.log(1/self.epsilon)))\<close>.\<close>

definition planner_eta :: "real \<Rightarrow> real \<Rightarrow> real" where
  "planner_eta g e = g powr (1 / py_max 2 (np_log (1 / e)))"

text \<open>Line 111.\<close>

definition planner_m :: "real \<Rightarrow> real \<Rightarrow> real \<Rightarrow> real \<Rightarrow> real" where
  "planner_m g d e al = (ln (1 / d) + al) / ((1 - g) ^ 2 * e ^ 2)"

record TrailBlazer =
  tb_gamma :: real
  tb_delta :: real
  tb_epsilon :: real
  tb_eta :: real
  tb_K :: nat
  tb_alpha :: real
  tb_m :: real
  tb_root :: addr

text \<open>
  \<^verbatim>\<open>TrailBlazer.__init__\<close>. The value line 109 gives \<^verbatim>\<open>alpha\<close> is overwritten by 0 on
  line 110; line 109 is numpy arithmetic, which raises nothing. The divisions
  \<^verbatim>\<open>1/self.epsilon\<close> and \<^verbatim>\<open>1/self.delta\<close> are Python divisions and raise on zero. A
  negative \<^verbatim>\<open>gamma\<close> makes \<^verbatim>\<open>eta\<close> a \<^verbatim>\<open>nan\<close>, a negative \<^verbatim>\<open>delta\<close> or a zero divisor
  makes \<^verbatim>\<open>m\<close> non-finite.
\<close>

definition TrailBlazer_init ::
  "('s, 'a) gen_model \<Rightarrow> addr \<Rightarrow> real \<Rightarrow> real \<Rightarrow> real \<Rightarrow> ('s, 'a) store \<Rightarrow>
   error + (TrailBlazer \<times> ('s, 'a) store)" where
  "TrailBlazer_init M s g d e st =
     (if e = 0 then Inl (ZeroDivisionError 107)
      else if g < 0 then Inl (NonFinite 107)
      else
        (case get_state st s of
           Inl err \<Rightarrow> Inl err
         | Inr sv \<Rightarrow>
             if d = 0 then Inl (ZeroDivisionError 111)
             else if d < 0 \<or> (1 - g) ^ 2 * e ^ 2 = 0 then Inl (NonFinite 111)
             else
               (case MaxNode_init M s g d 0 (planner_eta g e) st of
                  Inl err \<Rightarrow> Inl err
                | Inr (root_node, st') \<Rightarrow>
                    Inr (\<lparr>tb_gamma = g, tb_delta = d, tb_epsilon = e,
                          tb_eta = planner_eta g e,
                          tb_K = length (get_actions M sv), tb_alpha = 0,
                          tb_m = planner_m g d e 0, tb_root = root_node\<rparr>, st'))))"

text \<open>\<^verbatim>\<open>TrailBlazer.run\<close>: \<^verbatim>\<open>self.root.run(self.m, self.epsilon/2)\<close>; \<^verbatim>\<open>self.m\<close> is a float.\<close>

definition TrailBlazer_run ::
  "('s, 'a) gen_model \<Rightarrow> nat \<Rightarrow> TrailBlazer \<Rightarrow> ('s, 'a) store \<Rightarrow>
   error + (real \<times> ('s, 'a) store)" where
  "TrailBlazer_run M fuel tb st =
     MaxNode_run M fuel (tb_root tb) (FloatB (tb_m tb)) (tb_epsilon tb / 2) st"

section \<open>Notions used to state the claims\<close>

text \<open>
  \<open>grows st st'\<close>: the store \<open>st'\<close> comes from \<open>st\<close> by what the planner does to a store.
  State objects and log entries are only added, and every new log entry is a step on a
  state object that \<open>st\<close> does not hold; nodes are only added; a \<^verbatim>\<open>MaxNode\<close> of \<open>st\<close> is
  unchanged; an \<^verbatim>\<open>AvgNode\<close> of \<open>st\<close> keeps its fields but for \<^verbatim>\<open>r\<close> and for
  \<^verbatim>\<open>sampled_nodes\<close>, which is only extended at its end.
\<close>

definition avg_static :: "'a AvgNode \<Rightarrow> 'a AvgNode" where
  "avg_static n = n\<lparr>avg_sampled_nodes := [], avg_r := 0\<rparr>"

definition node_le :: "'a node \<Rightarrow> 'a node \<Rightarrow> bool" where
  "node_le x y =
     (case x of
        MaxN n \<Rightarrow> y = MaxN n
      | AvgN n \<Rightarrow>
          (case y of
             MaxN _ \<Rightarrow> False
           | AvgN n' \<Rightarrow>
               avg_static n' = avg_static n \<and>
               prefix (avg_sampled_nodes n) (avg_sampled_nodes n')))"

definition grows :: "('s, 'a) store \<Rightarrow> ('s, 'a) store \<Rightarrow> bool" where
  "grows st st' \<longleftrightarrow>
     (\<exists>ss. states st' = states st @ ss) \<and>
     length (nodes st) \<le> length (nodes st') \<and>
     (\<forall>q < length (nodes st). node_le (nodes st ! q) (nodes st' ! q)) \<and>
     (\<exists>l. log st' = log st @ l \<and> (\<forall>e \<in> set l. length (states st) \<le> fst (snd e)))"

text \<open>
  \<open>rewards_of a lg\<close>: the rewards of the samples the \<^verbatim>\<open>AvgNode\<close> at \<open>a\<close> has drawn, in the
  order it drew them, as the log \<open>lg\<close> records them. \<open>stats_ok\<close>: every node's \<^verbatim>\<open>r\<close> and
  the length of its \<^verbatim>\<open>sampled_nodes\<close> are the sum and the number of these rewards.
  \<open>heap_ok\<close>: a node refers to nodes allocated after it (the store is a forest).
  \<open>callers st st'\<close>: the nodes that called the generative model between \<open>st\<close> and \<open>st'\<close>.
\<close>

definition rewards_of :: "addr \<Rightarrow> (addr \<times> addr \<times> real) list \<Rightarrow> real list" where
  "rewards_of a lg = map (\<lambda>e. snd (snd e)) (filter (\<lambda>e. fst e = a) lg)"

definition stats_ok :: "('s, 'a) store \<Rightarrow> bool" where
  "stats_ok st \<longleftrightarrow>
     (\<forall>e \<in> set (log st). fst e < length (nodes st)) \<and>
     (\<forall>a n. get_avg st a = Inr n \<longrightarrow>
        avg_r n = sum_list (rewards_of a (log st)) \<and>
        length (avg_sampled_nodes n) = length (rewards_of a (log st)))"

definition heap_ok :: "('s, 'a) store \<Rightarrow> bool" where
  "heap_ok st \<longleftrightarrow>
     (\<forall>q n. get_avg st q = Inr n \<longrightarrow>
        (\<forall>c \<in> set (avg_sampled_nodes n). q < c \<and> c < length (nodes st))) \<and>
     (\<forall>q n. get_max st q = Inr n \<longrightarrow>
        (\<forall>b \<in> snd ` set (max_children n). q < b \<and> b < length (nodes st)))"

definition callers :: "('s, 'a) store \<Rightarrow> ('s, 'a) store \<Rightarrow> addr set" where
  "callers st st' = fst ` set (drop (length (log st)) (log st'))"

definition only_callers_change :: "('s, 'a) store \<Rightarrow> ('s, 'a) store \<Rightarrow> bool" where
  "only_callers_change st st' \<longleftrightarrow>
     (\<forall>q < length (nodes st). nodes st' ! q = nodes st ! q \<or> q \<in> callers st st')"

text \<open>
  \<open>children_values\<close>: the values \<open>child\<^sub>i.value(c\<^sub>i, e)\<close> that the distinct children return when
  they are called one after the other, each on the store the one before it left.
  \<open>weighted_sum m cs vs\<close> is \<open>\<Sum>\<^sub>i (c\<^sub>i/m) \<cdot> v\<^sub>i\<close>, and \<open>backup_value g rs m cs vs\<close> the mean of
  the rewards \<open>rs\<close> plus \<open>g\<close> times that sum.
\<close>

fun children_values ::
  "('s, 'a) gen_model \<Rightarrow> nat \<Rightarrow> (addr \<times> nat) list \<Rightarrow> real \<Rightarrow> ('s, 'a) store \<Rightarrow>
   error + (real list \<times> ('s, 'a) store)" where
  "children_values M f [] e st = Inr ([], st)"
| "children_values M f ((u, c) # ucs) e st =
     (case MaxNode_run M f u (IntB (int c)) e st of
        Inl err \<Rightarrow> Inl err
      | Inr (v, st1) \<Rightarrow>
          (case children_values M f ucs e st1 of
             Inl err \<Rightarrow> Inl err
           | Inr (vs, st2) \<Rightarrow> Inr (v # vs, st2)))"

definition weighted_sum :: "real \<Rightarrow> nat list \<Rightarrow> real list \<Rightarrow> real" where
  "weighted_sum m cs vs = (\<Sum>(c, x) \<leftarrow> zip cs vs. real c / m * x)"

definition backup_value :: "real \<Rightarrow> real list \<Rightarrow> real \<Rightarrow> nat list \<Rightarrow> real list \<Rightarrow> real" where
  "backup_value g rs m cs vs = sum_list rs / real (length rs) + g * weighted_sum m cs vs"

subsection \<open>A small stochastic model for the worked examples\<close>

text \<open>
  States are numbers and a step leads from \<open>s\<close> to \<open>s + 1\<close>. State 1 offers two actions,
  every other state one. The reward depends on the index of the call alone: the first
  call of a run returns 1, the third 100, the fourth 50, the fifth -100, every other 0.
\<close>

definition M_ex :: "(nat, nat) gen_model" where
  "M_ex = \<lparr>get_actions = (\<lambda>s. if s = 1 then [0, 1] else [0]),
          step = (\<lambda>s a i. ((if i = 0 then 1 else if i = 2 then 100 else if i = 3 then 50
                              else if i = 4 then - 100 else 0), Suc s))\<rparr>"

text \<open>
  \<open>store_A\<close>: what \<^verbatim>\<open>MaxNode(state, 1/4, 1/2, 0, 1/2)\<close> builds on a state object of value
  2: the \<^verbatim>\<open>MaxNode\<close> at address 0 and its only \<^verbatim>\<open>AvgNode\<close> at address 1.
\<close>

definition store_A :: "(nat, nat) store" where
  "store_A =
     \<lparr>states = [2],
      nodes = [MaxN \<lparr>max_state = 0, max_gamma = 1/4, max_delta = 1/2, max_alpha = 0,
                     max_eta = 1/2, max_K = 1, max_children = [(0, 1)]\<rparr>,
               AvgN \<lparr>avg_state = 0, avg_action = 0, avg_gamma = 1/4, avg_delta = 1/2,
                     avg_alpha = 0, avg_eta = 1/2, avg_K = 1, avg_sampled_nodes = [],
                     avg_r = 0\<rparr>],
      log = []\<rparr>"

text \<open>
  \<open>store_B\<close>: what the planner's constructor builds for \<open>\<gamma> = 4\<close>, \<open>\<delta> = 1\<close>, \<open>\<epsilon> = 1\<close> on
  a state object of value 2. \<open>store_C\<close> and \<open>tb_C\<close>: the store and the planner for
  \<open>\<gamma> = 1/2\<close>, \<open>\<delta> = 1/2\<close>, \<open>\<epsilon> = 1\<close>.
\<close>

definition store_B :: "(nat, nat) store" where
  "store_B =
     \<lparr>states = [2],
      nodes = [MaxN \<lparr>max_state = 0, max_gamma = 4, max_delta = 1, max_alpha = 0,
                     max_eta = 2, max_K = 1, max_children = [(0, 1)]\<rparr>,
               AvgN \<lparr>avg_state = 0, avg_action = 0, avg_gamma = 4, avg_delta = 1,
                     avg_alpha = 0, avg_eta = 2, avg_K = 1, avg_sampled_nodes = [],
                     avg_r = 0\<rparr>],
      log = []\<rparr>"

definition store_C :: "(nat, nat) store" where
  "store_C =
     \<lparr>states = [2],
      nodes = [MaxN \<lparr>max_state = 0, max_gamma = 1/2, max_delta = 1/2, max_alpha = 0,
                     max_eta = planner_eta (1/2) 1, max_K = 1, max_children = [(0, 1)]\<rparr>,
               AvgN \<lparr>avg_state = 0, avg_action = 0, avg_gamma = 1/2, avg_delta = 1/2,
                     avg_alpha = 0, avg_eta = planner_eta (1/2) 1, avg_K = 1,
                     avg_sampled_nodes = [], avg_r = 0\<rparr>],
      log = []\<rparr>"

definition tb_C :: TrailBlazer where
  "tb_C = \<lparr>tb_gamma = 1/2, tb_delta = 1/2, tb_epsilon = 1, tb_eta = planner_eta (1/2) 1,
           tb_K = 1, tb_alpha = 0, tb_m = planner_m (1/2) (1/2) 1 0, tb_root = 0\<rparr>"

section \<open>Lemmas\<close>

subsection \<open>The worked examples\<close>

lemma store_A_init:
  "MaxNode_init M_ex 0 (1/4) (1/2) 0 (1/2) \<lparr>states = [2], nodes = [], log = []\<rparr> =
   Inr (0, store_A)"
  by (simp add: MaxNode_init_def get_state_def M_ex_def AvgNode_init_def store_A_def)

subsection \<open>Numbers\<close>

lemma py_max_np_log: "0 < e \<Longrightarrow> py_max 2 (np_log (1 / e)) = max 2 (ln (1 / e))"
  by (auto simp: py_max_def np_log_def max_def)

lemma ln2_bounds: "1/2 < ln (2::real)" "ln (2::real) < 3/4"
proof -
  have "exp (1/2 :: real) \<le> 1 + 1/2 + (1/2)\<^sup>2"
    by (rule exp_bound) simp_all
  then have "exp (1/2 :: real) < 2" by (simp add: power2_eq_square)
  then have "exp (1/2 :: real) < exp (ln 2)" by simp
  then show "1/2 < ln (2::real)" by (simp only: exp_less_cancel_iff)
  have "1 + (3/4) + (3/4)\<^sup>2 / 2 \<le> exp (3/4 :: real)"
    by (rule exp_lower_Taylor_quadratic) simp
  then have "2 < exp (3/4 :: real)" by (simp add: power2_eq_square)
  then have "exp (ln 2) < exp (3/4 :: real)" by simp
  then show "ln (2::real) < 3/4" by (simp only: exp_less_cancel_iff)
qed

subsection \<open>Construction\<close>

lemma MaxNode_init_succeeds:
  assumes "s < length (states st)"
  shows "\<exists>st'. MaxNode_init M s g d al et st = Inr (length (nodes st), st') \<and>
               states st' = states st \<and> log st' = log st"
proof -
  obtain cs st1 where mc:
    "make_children s g d al et (length (get_actions M (states st ! s)))
       (get_actions M (states st ! s)) []
       (st\<lparr>nodes := nodes st @ [MaxN \<lparr>max_state = s, max_gamma = g, max_delta = d,
          max_alpha = al, max_eta = et, max_K = length (get_actions M (states st ! s)),
          max_children = []\<rparr>]\<rparr>) = (cs, st1)"
    by fastforce
  from make_children_extends [OF mc] have "states st1 = states st" "log st1 = log st"
    by auto
  with assms mc show ?thesis
    by (simp add: MaxNode_init_def get_state_def Let_def)
qed

subsection \<open>Stores only grow\<close>

lemma node_le_refl [simp]: "node_le x x"
  by (cases x) (simp_all add: node_le_def)

lemma node_le_trans: "node_le x y \<Longrightarrow> node_le y z \<Longrightarrow> node_le x z"
  by (cases x; cases y; cases z) (auto simp: node_le_def)

lemma grows_refl [simp]: "grows st st"
  by (simp add: grows_def)

lemma grows_trans:
  assumes "grows st st1" and "grows st1 st2"
  shows "grows st st2"
proof -
  from assms(1) obtain ss l where 1: "states st1 = states st @ ss"
    "length (nodes st) \<le> length (nodes st1)"
    "\<forall>q < length (nodes st). node_le (nodes st ! q) (nodes st1 ! q)"
    "log st1 = log st @ l" "\<forall>e \<in> set l. length (states st) \<le> fst (snd e)"
    unfolding grows_def by blast
  from assms(2) obtain ss' l' where 2: "states st2 = states st1 @ ss'"
    "length (nodes st1) \<le> length (nodes st2)"
    "\<forall>q < length (nodes st1). node_le (nodes st1 ! q) (nodes st2 ! q)"
    "log st2 = log st1 @ l'" "\<forall>e \<in> set l'. length (states st1) \<le> fst (snd e)"
    unfolding grows_def by blast
  have a: "states st2 = states st @ (ss @ ss')" using 1(1) 2(1) by simp
  have b: "length (nodes st) \<le> length (nodes st2)" using 1(2) 2(2) by simp
  have c: "\<forall>q < length (nodes st). node_le (nodes st ! q) (nodes st2 ! q)"
    using 1(2,3) 2(3) by (meson node_le_trans less_le_trans)
  have d: "log st2 = log st @ (l @ l')" using 1(4) 2(4) by simp
  have e: "\<forall>e \<in> set (l @ l'). length (states st) \<le> fst (snd e)"
    using 1(1,5) 2(5) by fastforce
  show ?thesis unfolding grows_def using a b c d e by blast
qed

lemma get_avg_iff: "get_avg st a = Inr n \<longleftrightarrow> a < length (nodes st) \<and> nodes st ! a = AvgN n"
  by (auto simp: get_avg_def split: node.splits)

lemma get_max_iff: "get_max st c = Inr n \<longleftrightarrow> c < length (nodes st) \<and> nodes st ! c = MaxN n"
  by (auto simp: get_max_def split: node.splits)

lemma update_values: "snd ` set (AList.update k v al) \<subseteq> insert v (snd ` set al)"
  by (induction al) auto

lemma make_children_values:
  "make_children s g d al et k acts cs st = (cs', st') \<Longrightarrow>
   snd ` set cs' \<subseteq> snd ` set cs \<union> {length (nodes st) ..< length (nodes st) + length acts}"
proof (induction acts arbitrary: cs st)
  case Nil
  then show ?case by simp
next
  case (Cons act acts)
  from Cons.prems have
    "make_children s g d al et k acts (AList.update act (length (nodes st)) cs)
       (st\<lparr>nodes := nodes st @ [AvgN (AvgNode_init s act g d al et k)]\<rparr>) = (cs', st')"
    by simp
  from Cons.IH [OF this] update_values [of act "length (nodes st)" cs]
  show ?case by force
qed

lemma find_sampled_mem: "find_sampled st p cs = Inr (Some c) \<Longrightarrow> c \<in> set cs"
  by (induction cs) (auto split: sum.splits if_splits)

lemma MaxNode_init_result:
  assumes "MaxNode_init M s g d al et st = Inr (c, st')"
  shows "s < length (states st) \<and> c = length (nodes st) \<and> states st' = states st \<and>
         log st' = log st \<and>
         (\<exists>cs. nodes st' = nodes st @
                  MaxN \<lparr>max_state = s, max_gamma = g, max_delta = d, max_alpha = al,
                        max_eta = et, max_K = length (get_actions M (states st ! s)),
                        max_children = cs\<rparr> #
                  map (\<lambda>act. AvgN (AvgNode_init s act g d al et
                                      (length (get_actions M (states st ! s)))))
                    (get_actions M (states st ! s)) \<and>
                snd ` set cs \<subseteq> {Suc (length (nodes st)) ..<
                                   Suc (length (nodes st)) +
                                   length (get_actions M (states st ! s))})"
proof -
  from assms have s: "s < length (states st)"
    by (auto simp: MaxNode_init_def get_state_def split: sum.splits if_splits)
  define acts where "acts = get_actions M (states st ! s)"
  define n0 :: "'b MaxNode" where
    "n0 = \<lparr>max_state = s, max_gamma = g, max_delta = d, max_alpha = al, max_eta = et,
           max_K = length acts, max_children = []\<rparr>"
  define st0 where "st0 = st\<lparr>nodes := nodes st @ [MaxN n0]\<rparr>"
  obtain cs st1 where mc: "make_children s g d al et (length acts) acts [] st0 = (cs, st1)"
    by fastforce
  from assms s mc have c: "c = length (nodes st)"
    and st': "st' = st1\<lparr>nodes := (nodes st1)[length (nodes st) := MaxN (n0\<lparr>max_children := cs\<rparr>)]\<rparr>"
    by (auto simp: MaxNode_init_def get_state_def Let_def n0_def st0_def acts_def)
  from make_children_extends [OF mc]
  have ext: "nodes st1 = nodes st0 @ map (\<lambda>act. AvgN (AvgNode_init s act g d al et (length acts))) acts"
    and same: "states st1 = states st0" "log st1 = log st0"
    by auto
  from make_children_values [OF mc]
  have vals: "snd ` set cs \<subseteq> {Suc (length (nodes st)) ..< Suc (length (nodes st)) + length acts}"
    by (auto simp: st0_def)
  have "nodes st' = nodes st @ MaxN (n0\<lparr>max_children := cs\<rparr>) #
          map (\<lambda>act. AvgN (AvgNode_init s act g d al et (length acts))) acts"
    using st' ext by (simp add: st0_def list_update_append)
  with s c st' same vals show ?thesis
    by (auto simp: st0_def n0_def acts_def)
qed

text \<open>What one iteration of the sampling loop does to the store.\<close>

lemma sample_once_effect:
  assumes "sample_once M a st = Inr st'"
  obtains n x s' c new where
    "get_avg st a = Inr n" "avg_state n < length (states st)"
    "step M (states st ! avg_state n) (avg_action n) (length (log st)) = (x, s')"
    "states st' = states st @ [s']"
    "log st' = log st @ [(a, length (states st), x)]"
    "nodes st' = (nodes st)[a := AvgN (n\<lparr>avg_sampled_nodes := avg_sampled_nodes n @ [c],
                                         avg_r := avg_r n + x\<rparr>)] @ new"
    "(c \<in> set (avg_sampled_nodes n) \<and> new = []) \<or>
     (c = length (nodes st) \<and>
      (\<exists>cs. new = MaxN \<lparr>max_state = length (states st), max_gamma = avg_gamma n,
                        max_delta = avg_delta n, max_alpha = avg_alpha n, max_eta = avg_eta n,
                        max_K = length (get_actions M s'), max_children = cs\<rparr> #
                   map (\<lambda>act. AvgN (AvgNode_init (length (states st)) act (avg_gamma n)
                          (avg_delta n) (avg_alpha n) (avg_eta n) (length (get_actions M s'))))
                     (get_actions M s') \<and>
            snd ` set cs \<subseteq> {Suc (length (nodes st)) ..<
                               Suc (length (nodes st)) + length (get_actions M s')}))"
proof -
  from assms obtain n where n: "get_avg st a = Inr n"
    by (auto simp: sample_once_def split: sum.splits)
  then have a: "a < length (nodes st)" and na: "nodes st ! a = AvgN n"
    by (auto simp: get_avg_def split: if_splits node.splits)
  from assms n obtain p st1 where dc: "deepcopy (avg_state n) st = Inr (p, st1)"
    by (auto simp: sample_once_def split: sum.splits)
  then have sv: "avg_state n < length (states st)" and p: "p = length (states st)"
    and st1: "st1 = st\<lparr>states := states st @ [states st ! avg_state n]\<rparr>"
    by (auto simp: deepcopy_def get_state_def split: sum.splits if_splits)
  from assms n dc obtain x st2 where ss: "state_step M a p (avg_action n) st1 = Inr (x, st2)"
    by (auto simp: sample_once_def split: sum.splits)
  obtain x0 s' where stp:
    "step M (states st ! avg_state n) (avg_action n) (length (log st)) = (x0, s')"
    by fastforce
  with ss p st1 have x0: "x0 = x"
    and st2: "st2 = st\<lparr>states := states st @ [s'], log := log st @ [(a, length (states st), x)]\<rparr>"
    by (auto simp: state_step_def get_state_def split: sum.splits if_splits prod.splits)
  from assms n dc ss obtain fo where fs: "find_sampled st2 p (avg_sampled_nodes n) = Inr fo"
    by (auto simp: sample_once_def split: sum.splits)
  show ?thesis
  proof (cases fo)
    case (Some c)
    have c: "c \<in> set (avg_sampled_nodes n)"
      using fs [unfolded Some] by (rule find_sampled_mem)
    have g2: "get_avg st2 a = Inr n"
      using a na by (simp add: get_avg_def st2)
    from assms n dc ss fs Some have
      fin: "(case append_sampled a c st2 of Inl e \<Rightarrow> Inl e
             | Inr st3 \<Rightarrow> add_reward a x st3) = Inr st'"
      by (simp add: sample_once_def)
    have as: "append_sampled a c st2 =
        Inr (put_avg a (n\<lparr>avg_sampled_nodes := avg_sampled_nodes n @ [c]\<rparr>) st2)"
      using g2 by (simp add: append_sampled_def)
    have a2: "a < length (nodes st2)" using a by (simp add: st2)
    have g3: "get_avg (put_avg a (n\<lparr>avg_sampled_nodes := avg_sampled_nodes n @ [c]\<rparr>) st2) a =
        Inr (n\<lparr>avg_sampled_nodes := avg_sampled_nodes n @ [c]\<rparr>)"
      using a2 by (simp add: get_avg_def put_avg_def)
    from fin as g3 have st': "st' = put_avg a (n\<lparr>avg_sampled_nodes := avg_sampled_nodes n @ [c],
                                         avg_r := avg_r n + x\<rparr>)
                   (put_avg a (n\<lparr>avg_sampled_nodes := avg_sampled_nodes n @ [c]\<rparr>) st2)"
      by (simp add: add_reward_def)
    have nd: "nodes st' = (nodes st)[a := AvgN (n\<lparr>avg_sampled_nodes := avg_sampled_nodes n @ [c],
                                         avg_r := avg_r n + x\<rparr>)] @ []"
      and sd: "states st' = states st @ [s']"
      and ld: "log st' = log st @ [(a, length (states st), x)]"
      by (simp_all add: st' put_avg_def st2)
    show ?thesis
      by (rule that [OF n sv stp [unfolded x0] sd ld nd]) (simp add: c)
  next
    case None
    from assms n dc ss fs None obtain c st3 where
      mi: "MaxNode_init M p (avg_gamma n) (avg_delta n) (avg_alpha n) (avg_eta n) st2 = Inr (c, st3)"
      by (auto simp: sample_once_def split: sum.splits)
    have sp: "states st2 ! p = s'" "length (states st2) = Suc (length (states st))"
      "nodes st2 = nodes st" "log st2 = log st @ [(a, length (states st), x)]"
      "states st2 = states st @ [s']"
      by (simp_all add: st2 p)
    from MaxNode_init_result [OF mi] sp p obtain cs where
      c: "c = length (nodes st)" and s3: "states st3 = states st @ [s']"
      and l3: "log st3 = log st @ [(a, length (states st), x)]"
      and n3: "nodes st3 = nodes st @
                  MaxN \<lparr>max_state = length (states st), max_gamma = avg_gamma n,
                        max_delta = avg_delta n, max_alpha = avg_alpha n, max_eta = avg_eta n,
                        max_K = length (get_actions M s'), max_children = cs\<rparr> #
                  map (\<lambda>act. AvgN (AvgNode_init (length (states st)) act (avg_gamma n)
                          (avg_delta n) (avg_alpha n) (avg_eta n) (length (get_actions M s'))))
                    (get_actions M s')"
      and cs: "snd ` set cs \<subseteq> {Suc (length (nodes st)) ..<
                               Suc (length (nodes st)) + length (get_actions M s')}"
      by auto
    have g3: "get_avg st3 a = Inr n"
      using a na n3 by (simp add: get_avg_def nth_append)
    from assms n dc ss fs None mi have
      fin: "(case append_sampled a c st3 of Inl e \<Rightarrow> Inl e
             | Inr st4 \<Rightarrow> add_reward a x st4) = Inr st'"
      by (simp add: sample_once_def)
    have as: "append_sampled a c st3 =
        Inr (put_avg a (n\<lparr>avg_sampled_nodes := avg_sampled_nodes n @ [c]\<rparr>) st3)"
      using g3 by (simp add: append_sampled_def)
    have a3: "a < length (nodes st3)" using a n3 by simp
    have g4: "get_avg (put_avg a (n\<lparr>avg_sampled_nodes := avg_sampled_nodes n @ [c]\<rparr>) st3) a =
        Inr (n\<lparr>avg_sampled_nodes := avg_sampled_nodes n @ [c]\<rparr>)"
      using a3 by (simp add: get_avg_def put_avg_def)
    from fin as g4 have st': "st' = put_avg a (n\<lparr>avg_sampled_nodes := avg_sampled_nodes n @ [c],
                                         avg_r := avg_r n + x\<rparr>)
                   (put_avg a (n\<lparr>avg_sampled_nodes := avg_sampled_nodes n @ [c]\<rparr>) st3)"
      by (simp add: add_reward_def)
    have "nodes st' = (nodes st3)[a := AvgN (n\<lparr>avg_sampled_nodes := avg_sampled_nodes n @ [c],
                                         avg_r := avg_r n + x\<rparr>)]"
      and s': "states st' = states st3" and l': "log st' = log st3"
      by (simp_all add: st' put_avg_def)
    then have nd: "nodes st' = (nodes st)[a := AvgN (n\<lparr>avg_sampled_nodes := avg_sampled_nodes n @ [c],
                                         avg_r := avg_r n + x\<rparr>)] @
                  (MaxN \<lparr>max_state = length (states st), max_gamma = avg_gamma n,
                        max_delta = avg_delta n, max_alpha = avg_alpha n, max_eta = avg_eta n,
                        max_K = length (get_actions M s'), max_children = cs\<rparr> #
                  map (\<lambda>act. AvgN (AvgNode_init (length (states st)) act (avg_gamma n)
                          (avg_delta n) (avg_alpha n) (avg_eta n) (length (get_actions M s'))))
                    (get_actions M s'))"
      using n3 a by (simp add: list_update_append)
    have sd: "states st' = states st @ [s']" using s' s3 by simp
    have ld: "log st' = log st @ [(a, length (states st), x)]" using l' l3 by simp
    show ?thesis
    proof (rule that [OF n sv stp [unfolded x0] sd ld nd], rule disjI2, intro conjI exI)
      show "c = length (nodes st)" by (rule c)
      show "snd ` set cs \<subseteq> {Suc (length (nodes st)) ..<
                               Suc (length (nodes st)) + length (get_actions M s')}"
        by (rule cs)
    qed (rule refl)
  qed
qed

lemma sample_once_grows:
  assumes "sample_once M a st = Inr st'"
  shows "grows st st'"
proof -
  from assms obtain n x s' c new where e:
    "get_avg st a = Inr n"
    "states st' = states st @ [s']"
    "log st' = log st @ [(a, length (states st), x)]"
    "nodes st' = (nodes st)[a := AvgN (n\<lparr>avg_sampled_nodes := avg_sampled_nodes n @ [c],
                                         avg_r := avg_r n + x\<rparr>)] @ new"
    by (rule sample_once_effect)
  from e(1) have a: "a < length (nodes st)" "nodes st ! a = AvgN n"
    by (simp_all add: get_avg_iff)
  have "node_le (nodes st ! q) (nodes st' ! q)" if "q < length (nodes st)" for q
  proof (cases "q = a")
    case True
    then show ?thesis using a e(4) by (simp add: nth_append node_le_def avg_static_def)
  next
    case False
    then show ?thesis using that e(4) by (simp add: nth_append)
  qed
  then show ?thesis
    unfolding grows_def using e(2,3,4) by simp
qed

lemma sample_loop_grows: "sample_loop M a m st = Inr st' \<Longrightarrow> grows st st'"
proof (induction M a m st rule: sample_loop.induct)
  case (1 M a m st)
  from "1.prems" obtain n where n: "get_avg st a = Inr n"
    by (subst (asm) sample_loop.simps) (auto split: sum.splits)
  show ?case
  proof (cases "real (length (avg_sampled_nodes n)) < m")
    case True
    with "1.prems" n obtain st1 where s1: "sample_once M a st = Inr st1"
      and l1: "sample_loop M a m st1 = Inr st'"
      by (subst (asm) sample_loop.simps) (auto split: sum.splits)
    from "1.IH" [OF n True s1 l1] sample_once_grows [OF s1] show ?thesis
      by (blast intro: grows_trans)
  next
    case False
    with "1.prems" n have "st' = st"
      by (subst (asm) sample_loop.simps) simp
    then show ?thesis by simp
  qed
qed

lemma sample_loop_filled:
  "sample_loop M a m st = Inr st' \<Longrightarrow>
   \<exists>n'. get_avg st' a = Inr n' \<and> m \<le> real (length (avg_sampled_nodes n'))"
proof (induction M a m st rule: sample_loop.induct)
  case (1 M a m st)
  from "1.prems" obtain n where n: "get_avg st a = Inr n"
    by (subst (asm) sample_loop.simps) (auto split: sum.splits)
  show ?case
  proof (cases "real (length (avg_sampled_nodes n)) < m")
    case True
    with "1.prems" n obtain st1 where s1: "sample_once M a st = Inr st1"
      and l1: "sample_loop M a m st1 = Inr st'"
      by (subst (asm) sample_loop.simps) (auto split: sum.splits)
    from "1.IH" [OF n True s1 l1] show ?thesis .
  next
    case False
    with "1.prems" n have "st' = st"
      by (subst (asm) sample_loop.simps) simp
    with n False show ?thesis by simp
  qed
qed

lemma active_nodes_grows: "active_nodes M a m st = Inr (active, st1) \<Longrightarrow> grows st st1"
  by (auto simp: active_nodes_def split: sum.splits if_splits budget.splits
      dest: sample_loop_grows)

lemma avg_return_store: "avg_return a mu st = Inr (v, st') \<Longrightarrow> st' = st"
  by (auto simp: avg_return_def split: sum.splits if_splits)


text \<open>A run that returns, taken apart along the method's text.\<close>

lemma AvgNode_run_SucE:
  assumes "AvgNode_run M (Suc f) a m e st = Inr (v, st')"
  obtains (exit) n where "get_avg st a = Inr n" "avg_gamma n \<noteq> 1"
      "e \<ge> 1 / (1 - avg_gamma n)" "v = 0" "st' = st"
  | (sample) n active st1 mu st2 where "get_avg st a = Inr n" "avg_gamma n \<noteq> 1"
      "\<not> e \<ge> 1 / (1 - avg_gamma n)"
      "active_nodes M a m st = Inr (active, st1)"
      "run_uniques M f (uniq_counts active) m e (avg_gamma n) 0 st1 = Inr (mu, st2)"
      "avg_return a mu st2 = Inr (v, st')"
  using assms by (auto split: sum.splits if_splits)

lemma run_uniques_ConsE:
  assumes "run_uniques M f ((u, c) # ucs) m e g mu st = Inr (v, st')"
  obtains nu st1 where "g \<noteq> 0" "bval m \<noteq> 0"
      "MaxNode_run M f u (IntB (int c)) (e / g) st = Inr (nu, st1)"
      "run_uniques M f ucs m e g (mu + real c / bval m * nu) st1 = Inr (v, st')"
  using assms by (auto split: sum.splits if_splits)

lemma MaxNode_run_SucE:
  assumes "MaxNode_run M (Suc f) c m e st = Inr (v, st')"
  obtains (many) n candidates mu st1 where "get_max st c = Inr n"
      "elim_loop M f n (map snd (max_children n)) 1 None None e st =
         Inr ((candidates, Some mu), st1)"
      "1 < length candidates" "py_max_snd mu = Some v" "st' = st1"
  | (one) n b bs mu st1 where "get_max st c = Inr n"
      "elim_loop M f n (map snd (max_children n)) 1 None None e st =
         Inr ((b # bs, mu), st1)"
      "\<not> 1 < length (b # bs)"
      "AvgNode_run M f b m (max_eta n * e) st1 = Inr (v, st')"
  using assms by (auto split: sum.splits if_splits option.splits list.splits)

lemma elim_loop_SucE:
  assumes "elim_loop M (Suc f) n cs k U mu e st = Inr (res, st')"
  obtains (stop) "\<not> loop_cond n cs U e" "res = (cs, mu)" "st' = st"
  | (round) U' mu' st1 mu_sup where "loop_cond n cs U e" "round_U n k e = Inr U'"
      "max_eta n \<noteq> 1"
      "run_candidates M f cs k (U' * max_eta n / (1 - max_eta n)) st = Inr (mu', st1)"
      "py_max_snd mu' = Some mu_sup"
      "elim_loop M f n (retained U' (max_eta n) mu' mu_sup) (k + 1) (Some U') (Some mu') e st1 =
         Inr (res, st')"
  using assms by (auto split: sum.splits if_splits option.splits)

lemma run_candidates_ConsE:
  assumes "run_candidates M f (b # bs) k e st = Inr (mus, st')"
  obtains v st1 rest where "AvgNode_run M f b (IntB (int k)) e st = Inr (v, st1)"
      "run_candidates M f bs k e st1 = Inr (rest, st')" "mus = (b, v) # rest"
  using assms by (auto split: sum.splits)

lemma runs_grow:
  "AvgNode_run M f a m e st = Inr (v, st') \<Longrightarrow> grows st st'"
  "run_uniques M f ucs m e g mu st = Inr (v, st') \<Longrightarrow> grows st st'"
  "MaxNode_run M f c m e st = Inr (v, st') \<Longrightarrow> grows st st'"
  "elim_loop M f n cs k U muo e st = Inr (res, st') \<Longrightarrow> grows st st'"
  "run_candidates M f bs k e st = Inr (mus, st') \<Longrightarrow> grows st st'"
proof (induction M f a m e st and M f ucs m e g mu st and M f c m e st
         and M f n cs k U muo e st and M f bs k e st
       arbitrary: v st' and v st' and v st' and res st' and mus st'
       rule: AvgNode_run_run_uniques_MaxNode_run_elim_loop_run_candidates.induct)
  case (1 M a m epsilon st)
  then show ?case by simp
next
  case (2 M f a m epsilon st)
  from "2.prems" show ?case
  proof (cases rule: AvgNode_run_SucE)
    case (exit n)
    then show ?thesis by simp
  next
    case (sample n active st1 mu st2)
    from "2.IH" [OF sample(1,2,3,4) refl sample(5)] active_nodes_grows [OF sample(4)]
      avg_return_store [OF sample(6)]
    show ?thesis by (blast intro: grows_trans)
  qed
next
  case (3 M f m epsilon g mu st)
  then show ?case by simp
next
  case (4 M f u c ucs m epsilon g mu st)
  from "4.prems" obtain nu st1 where r: "g \<noteq> 0" "bval m \<noteq> 0"
      "MaxNode_run M f u (IntB (int c)) (epsilon / g) st = Inr (nu, st1)"
      "run_uniques M f ucs m epsilon g (mu + real c / bval m * nu) st1 = Inr (v, st')"
    by (rule run_uniques_ConsE)
  from "4.IH"(1) [OF r(1,3)] "4.IH"(2) [OF r(1,3) refl r(2,4)] show ?case
    by (rule grows_trans)
next
  case (5 M c m epsilon st)
  then show ?case by simp
next
  case (6 M f c m epsilon st)
  from "6.prems" show ?case
  proof (cases rule: MaxNode_run_SucE)
    case (many n candidates mu st1)
    from "6.IH"(1) [OF many(1,2)] many(5) show ?thesis by simp
  next
    case (one n b bs mu st1)
    from "6.IH"(1) [OF one(1,2)] "6.IH"(2) [OF one(1,2) refl refl one(3) refl one(4)]
    show ?thesis by (rule grows_trans)
  qed
next
  case (7 M n candidates count U mu epsilon st)
  then show ?case by (simp split: if_splits)
next
  case (8 M f n candidates count U mu epsilon st)
  from "8.prems" show ?case
  proof (cases rule: elim_loop_SucE)
    case stop
    then show ?thesis by simp
  next
    case (round U' mu' st1 mu_sup)
    from "8.IH"(1) [OF round(1,2,3,4)] "8.IH"(2) [OF round(1,2,3,4) refl round(5,6)]
    show ?thesis by (rule grows_trans)
  qed
next
  case (9 M f count e st)
  then show ?case by simp
next
  case (10 M f b bs count e st)
  from "10.prems" obtain v st1 rest where r:
      "AvgNode_run M f b (IntB (int count)) e st = Inr (v, st1)"
      "run_candidates M f bs count e st1 = Inr (rest, st')"
    by (rule run_candidates_ConsE)
  from "10.IH"(1) [OF r(1)] "10.IH"(2) [OF r(1) refl r(2)] show ?case
    by (rule grows_trans)
qed

subsection \<open>Where a run can fail\<close>

lemma bump_counts_pos: "\<forall>(u, c) \<in> set ucs. 0 < c \<Longrightarrow> \<forall>(u, c) \<in> set (bump s ucs). 0 < c"
  by (induction s ucs rule: bump.induct) auto

lemma foldl_bump_pos:
  "\<forall>(u, c) \<in> set ucs. 0 < c \<Longrightarrow> \<forall>(u, c) \<in> set (foldl (\<lambda>ucs s. bump s ucs) ucs xs). 0 < c"
proof (induction xs arbitrary: ucs)
  case Nil
  then show ?case by simp
next
  case (Cons x xs)
  from Cons.IH [OF bump_counts_pos [OF Cons.prems]] show ?case by simp
qed

lemma uniq_counts_pos: "\<forall>(u, c) \<in> set (uniq_counts xs). 0 < c"
  unfolding uniq_counts_def by (rule foldl_bump_pos) simp

lemma find_sampled_err: "find_sampled st p cs = Inl err \<Longrightarrow> err = BadRef"
  by (induction cs) (auto simp: get_max_def get_state_def split: sum.splits if_splits node.splits)

lemma sample_once_err: "sample_once M a st = Inl err \<Longrightarrow> err = BadRef"
  by (auto simp: sample_once_def get_avg_def deepcopy_def state_step_def get_state_def
        MaxNode_init_def append_sampled_def add_reward_def Let_def
      split: sum.splits if_splits node.splits prod.splits option.splits
      dest: find_sampled_err)

lemma sample_loop_err: "sample_loop M a m st = Inl err \<Longrightarrow> err = BadRef"
proof (induction M a m st rule: sample_loop.induct)
  case (1 M a m st)
  show ?case
  proof (cases "get_avg st a")
    case (Inl e)
    with "1.prems" show ?thesis
      by (subst (asm) sample_loop.simps) (auto simp: get_avg_def split: if_splits node.splits)
  next
    case (Inr n)
    show ?thesis
    proof (cases "real (length (avg_sampled_nodes n)) < m")
      case True
      show ?thesis
      proof (cases "sample_once M a st")
        case (Inl e)
        with "1.prems" Inr True have "err = e"
          by (subst (asm) sample_loop.simps) simp
        with Inl show ?thesis by (simp add: sample_once_err)
      next
        case (Inr st1)
        with "1.prems" \<open>get_avg st a = Inr n\<close> True have "sample_loop M a m st1 = Inl err"
          by (subst (asm) sample_loop.simps) simp
        from "1.IH" [OF \<open>get_avg st a = Inr n\<close> True Inr this] show ?thesis .
      qed
    next
      case False
      with "1.prems" Inr show ?thesis
        by (subst (asm) sample_loop.simps) simp
    qed
  qed
qed

lemma active_nodes_err:
  "active_nodes M a m st = Inl err \<Longrightarrow> err = BadRef \<or> err = TypeError 65"
  by (auto simp: active_nodes_def get_avg_def split: sum.splits if_splits budget.splits node.splits
      dest: sample_loop_err)

lemma active_nodes_nonempty_cache:
  assumes "active_nodes M a m st = Inr (active, st1)" and "0 < bval m"
  shows "0 < n_sampled st1 a"
proof -
  from assms(1) obtain n where n: "get_avg st a = Inr n"
    by (auto simp: active_nodes_def split: sum.splits)
  show ?thesis
  proof (cases "real (length (avg_sampled_nodes n)) > bval m")
    case True
    with assms n have "st1 = st"
      by (auto simp: active_nodes_def split: budget.splits)
    with True assms(2) n show ?thesis
      by (auto simp: n_sampled_def)
  next
    case False
    with assms n obtain n1 where "sample_loop M a (bval m) st = Inr st1" "get_avg st1 a = Inr n1"
      by (auto simp: active_nodes_def split: sum.splits)
    with sample_loop_filled [OF this(1)] assms(2) show ?thesis
      by (auto simp: n_sampled_def)
  qed
qed

lemma grows_n_sampled:
  assumes "grows st st'" and "a < length (nodes st)"
  shows "n_sampled st a \<le> n_sampled st' a"
proof -
  from assms have le: "node_le (nodes st ! a) (nodes st' ! a)" and a': "a < length (nodes st')"
    by (auto simp: grows_def)
  then show ?thesis using assms(2)
    by (cases "nodes st ! a"; cases "nodes st' ! a")
       (auto simp: node_le_def n_sampled_def get_avg_def prefix_def)
qed

lemma round_U_err: "round_U n k e = Inl err \<Longrightarrow> err \<noteq> ZeroDivisionError 99"
  by (auto simp: round_U_def Let_def split: if_splits)

lemma runs_no_zde99:
  "0 < bval m \<Longrightarrow> AvgNode_run M f a m e st \<noteq> Inl (ZeroDivisionError 99)"
  "\<forall>(u, c) \<in> set ucs. 0 < c \<Longrightarrow> run_uniques M f ucs m e g mu st \<noteq> Inl (ZeroDivisionError 99)"
  "0 < bval m \<Longrightarrow> MaxNode_run M f c m e st \<noteq> Inl (ZeroDivisionError 99)"
  "0 < k \<Longrightarrow> elim_loop M f n cs k U muo e st \<noteq> Inl (ZeroDivisionError 99)"
  "0 < k \<Longrightarrow> run_candidates M f bs k e st \<noteq> Inl (ZeroDivisionError 99)"
proof (induction M f a m e st and M f ucs m e g mu st and M f c m e st
         and M f n cs k U muo e st and M f bs k e st
       rule: AvgNode_run_run_uniques_MaxNode_run_elim_loop_run_candidates.induct)
  case (1 M a m epsilon st)
  then show ?case by simp
next
  case (2 M f a m epsilon st)
  show ?case
  proof
    assume bad: "AvgNode_run M (Suc f) a m epsilon st = Inl (ZeroDivisionError 99)"
    then obtain n where n: "get_avg st a = Inr n"
      by (auto simp: get_avg_def split: sum.splits if_splits node.splits)
    from bad n have g: "avg_gamma n \<noteq> 1" and e: "\<not> 1 / (1 - avg_gamma n) \<le> epsilon"
      by (auto split: if_splits)
    from bad n g e obtain active st1 where an: "active_nodes M a m st = Inr (active, st1)"
      by (cases "active_nodes M a m st") (auto dest: active_nodes_err)
    from "2.IH" [OF n g e an refl uniq_counts_pos] bad n g e an
    obtain mu st2 where ru: "run_uniques M f (uniq_counts active) m epsilon (avg_gamma n) 0 st1 = Inr (mu, st2)"
      by (cases "run_uniques M f (uniq_counts active) m epsilon (avg_gamma n) 0 st1") auto
    from bad n g e an ru have ar: "avg_return a mu st2 = Inl (ZeroDivisionError 99)"
      by simp
    from active_nodes_grows [OF an] n have a1: "a < length (nodes st1)"
      by (auto simp: grows_def get_avg_iff)
    from active_nodes_nonempty_cache [OF an "2.prems"]
      grows_n_sampled [OF runs_grow(2) [OF ru] a1]
    have "0 < n_sampled st2 a" by simp
    with ar show False
      by (auto simp: avg_return_def n_sampled_def split: sum.splits if_splits)
  qed
next
  case (3 M f m epsilon g mu st)
  then show ?case by simp
next
  case (4 M f u c ucs m epsilon g mu st)
  from "4.prems" have c: "0 < c" and rest: "\<forall>(u, c) \<in> set ucs. 0 < c" by auto
  show ?case
  proof (cases "g = 0")
    case True
    then show ?thesis by simp
  next
    case False
    from "4.IH"(1) [OF False] c
    have 1: "MaxNode_run M f u (IntB (int c)) (epsilon / g) st \<noteq> Inl (ZeroDivisionError 99)"
      by simp
    show ?thesis
    proof (cases "MaxNode_run M f u (IntB (int c)) (epsilon / g) st")
      case (Inl err)
      with 1 False show ?thesis by simp
    next
      case (Inr r)
      obtain nu st1 where r: "r = (nu, st1)" by (cases r)
      show ?thesis
      proof (cases "bval m = 0")
        case True
        with Inr r False show ?thesis by (simp split: budget.splits)
      next
        case nz: False
        from "4.IH"(2) [OF False Inr [unfolded r] refl nz rest] Inr r False nz
        show ?thesis by simp
      qed
    qed
  qed
next
  case (5 M c m epsilon st)
  then show ?case by simp
next
  case (6 M f c m epsilon st)
  show ?case
  proof (cases "get_max st c")
    case (Inl err)
    then show ?thesis by (auto simp: get_max_def split: if_splits node.splits)
  next
    case (Inr n)
    from "6.IH"(1) [OF Inr]
    have 1: "elim_loop M f n (map snd (max_children n)) 1 None None epsilon st \<noteq>
               Inl (ZeroDivisionError 99)"
      by simp
    show ?thesis
    proof (cases "elim_loop M f n (map snd (max_children n)) 1 None None epsilon st")
      case (Inl err)
      with 1 Inr show ?thesis by simp
    next
      case el: (Inr r)
      obtain cands mu st1 where r: "r = ((cands, mu), st1)" by (cases r) auto
      show ?thesis
      proof (cases "1 < length cands")
        case True
        with Inr el r show ?thesis by (simp split: option.splits)
      next
        case False
        show ?thesis
        proof (cases cands)
          case Nil
          with Inr el r show ?thesis by simp
        next
          case (Cons b bs)
          from "6.IH"(2) [OF Inr el [unfolded r] refl refl False Cons "6.prems"]
            Inr el r False Cons
          show ?thesis by simp
        qed
      qed
    qed
  qed
next
  case (7 M n candidates count U mu epsilon st)
  then show ?case by simp
next
  case (8 M f n candidates count U mu epsilon st)
  show ?case
  proof (cases "loop_cond n candidates U epsilon")
    case False
    then show ?thesis by simp
  next
    case True
    show ?thesis
    proof (cases "round_U n count epsilon")
      case (Inl err)
      with True show ?thesis by (simp add: round_U_err)
    next
      case (Inr U')
      show ?thesis
      proof (cases "max_eta n = 1")
        case True
        with \<open>loop_cond n candidates U epsilon\<close> Inr show ?thesis by simp
      next
        case ne: False
        from "8.IH"(1) [OF True Inr ne "8.prems"]
        have 1: "run_candidates M f candidates count (U' * max_eta n / (1 - max_eta n)) st \<noteq>
                   Inl (ZeroDivisionError 99)" .
        show ?thesis
        proof (cases "run_candidates M f candidates count (U' * max_eta n / (1 - max_eta n)) st")
          case (Inl err)
          with 1 True Inr ne show ?thesis by simp
        next
          case rc: (Inr r)
          obtain mu' st1 where r: "r = (mu', st1)" by (cases r)
          show ?thesis
          proof (cases "py_max_snd mu'")
            case None
            with True Inr ne rc r show ?thesis by simp
          next
            case (Some mu_sup)
            from "8.IH"(2) [OF True Inr ne rc [unfolded r] refl Some] True Inr ne rc r Some
            show ?thesis by simp
          qed
        qed
      qed
    qed
  qed
next
  case (9 M f count e st)
  then show ?case by simp
next
  case (10 M f b bs count e st)
  from "10.IH"(1) "10.prems"
  have 1: "AvgNode_run M f b (IntB (int count)) e st \<noteq> Inl (ZeroDivisionError 99)"
    by simp
  show ?case
  proof (cases "AvgNode_run M f b (IntB (int count)) e st")
    case (Inl err)
    with 1 show ?thesis by simp
  next
    case (Inr r)
    obtain v st1 where r: "r = (v, st1)" by (cases r)
    from "10.IH"(2) [OF Inr [unfolded r] refl "10.prems"] Inr r show ?thesis
      by (auto split: sum.splits)
  qed
qed

subsection \<open>The elimination loop\<close>

lemma foldl_best_fold:
  "snd (foldl (\<lambda>best x. if snd x > snd best then x else best) c cs) =
   fold max (map snd cs) (snd (c :: 'b \<times> real))"
proof (induction cs arbitrary: c)
  case Nil
  then show ?case by simp
next
  case (Cons x xs)
  have "snd (if snd c < snd x then x else c) = max (snd x) (snd c)"
    by (simp add: max_def)
  with Cons.IH [of "if snd c < snd x then x else c"] show ?case
    by simp
qed

lemma py_max_snd_Max: "py_max_snd (c # cs) = Some (Max (snd ` set (c # cs)))"
proof -
  have "Max (set (map snd (c # cs))) = fold max (map snd cs) (snd c)"
    by (simp only: list.map Max.set_eq_fold)
  then show ?thesis
    by (simp add: foldl_best_fold)
qed

lemma py_max_snd_SomeD:
  assumes "py_max_snd mu = Some v"
  shows "mu \<noteq> [] \<and> v = Max (snd ` set mu) \<and> (\<exists>c \<in> set mu. snd c = v)"
proof (cases mu)
  case Nil
  with assms show ?thesis by simp
next
  case (Cons c cs)
  with assms have v: "v = Max (snd ` set mu)"
    by (simp only: py_max_snd_Max) simp
  have "Max (snd ` set mu) \<in> snd ` set mu"
    by (rule Max_in) (simp_all add: Cons)
  then obtain c0 where "c0 \<in> set mu" "snd c0 = Max (snd ` set mu)"
    by (auto simp: image_iff)
  with v Cons show ?thesis by blast
qed

lemma retained_keeps_best:
  assumes "py_max_snd mu = Some mu_sup" and "0 \<le> U" and "et < 1"
  shows "\<exists>c \<in> set mu. snd c = mu_sup \<and> fst c \<in> set (retained U et mu mu_sup)"
proof -
  from py_max_snd_SomeD [OF assms(1)] obtain c where c: "c \<in> set mu" "snd c = mu_sup"
    by blast
  from assms(2,3) have "0 \<le> 2 * U / (1 - et)" by simp
  then have "snd c + 2 * U / (1 - et) \<ge> mu_sup - 2 * U / (1 - et)"
    using c(2) by linarith
  with c show ?thesis
    by (auto simp: retained_def intro!: bexI [of _ c])
qed

lemma round_U_nonneg:
  assumes "round_U n k e = Inr U'" and "max_gamma n < 1"
  shows "0 \<le> U'"
  using assms by (auto simp: round_U_def Let_def split: if_splits)

lemma retained_subset: "set (retained U et mu mu_sup) \<subseteq> fst ` set mu"
  by (auto simp: retained_def)

lemma run_candidates_fst:
  "run_candidates M f bs k e st = Inr (mus, st') \<Longrightarrow> map fst mus = bs"
proof (induction bs arbitrary: mus st)
  case Nil
  then show ?case by simp
next
  case (Cons b bs)
  from Cons.prems obtain v st1 rest where r:
      "run_candidates M f bs k e st1 = Inr (rest, st')" "mus = (b, v) # rest"
    by (rule run_candidates_ConsE)
  from Cons.IH [OF r(1)] r(2) show ?case by simp
qed

lemma elim_loop_nonempty:
  assumes "max_gamma n < 1" and "max_eta n < 1"
  shows "elim_loop M f n cs k U mu e st = Inr ((cs', mu'), st') \<Longrightarrow> cs \<noteq> [] \<Longrightarrow> cs' \<noteq> []"
proof (induction f arbitrary: cs k U mu st)
  case 0
  then show ?case by (simp split: if_splits)
next
  case (Suc f)
  from Suc.prems(1) show ?case
  proof (cases rule: elim_loop_SucE)
    case stop
    with Suc.prems(2) show ?thesis by simp
  next
    case (round U' mu0 st1 mu_sup)
    from retained_keeps_best [OF round(5) round_U_nonneg [OF round(2) assms(1)] assms(2)]
    have "retained U' (max_eta n) mu0 mu_sup \<noteq> []" by auto
    from Suc.IH [OF round(6) this] show ?thesis .
  qed
qed

text \<open>The estimates a loop returns are those of a round, unless no round ran.\<close>

lemma elim_loop_last_round:
  "elim_loop M f n cs k U mu e st = Inr ((cs', mu'), st') \<Longrightarrow>
   (cs' = cs \<and> mu' = mu \<and> st' = st \<and> \<not> loop_cond n cs U e) \<or>
   (\<exists>f' cs0 k' U' st0 l mu_sup.
      round_U n k' e = Inr U' \<and>
      run_candidates M f' cs0 k' (U' * max_eta n / (1 - max_eta n)) st0 = Inr (l, st') \<and>
      py_max_snd l = Some mu_sup \<and> mu' = Some l \<and>
      cs' = retained U' (max_eta n) l mu_sup)"
proof (induction f arbitrary: cs k U mu st)
  case 0
  then show ?case by (simp split: if_splits)
next
  case (Suc f)
  from Suc.prems(1) show ?case
  proof (cases rule: elim_loop_SucE)
    case stop
    then show ?thesis by simp
  next
    case (round U' mu0 st1 mu_sup)
    from Suc.IH [OF round(6)] show ?thesis
    proof
      assume "cs' = retained U' (max_eta n) mu0 mu_sup \<and> mu' = Some mu0 \<and> st' = st1 \<and>
              \<not> loop_cond n (retained U' (max_eta n) mu0 mu_sup) (Some U') e" 
      with round(2,4,5) show ?thesis by blast
    next
      assume "\<exists>f' cs0 k' U' st0 l mu_sup.
      round_U n k' e = Inr U' \<and>
      run_candidates M f' cs0 k' (U' * max_eta n / (1 - max_eta n)) st0 = Inr (l, st') \<and>
      py_max_snd l = Some mu_sup \<and> mu' = Some l \<and>
      cs' = retained U' (max_eta n) l mu_sup"
      then show ?thesis by blast
    qed
  qed
qed

lemma elim_loop_stop:
  "\<not> loop_cond n cs U e \<Longrightarrow> elim_loop M f n cs k U mu e st = Inr ((cs, mu), st)"
  by (cases f) simp_all

subsection \<open>Invariants of a run\<close>

text \<open>Whatever every sample preserves, every run preserves.\<close>

lemma sample_loop_preserves:
  assumes step: "\<And>M a st st'. P st \<Longrightarrow> sample_once M a st = Inr st' \<Longrightarrow> P st'"
  shows "sample_loop M a m st = Inr st' \<Longrightarrow> P st \<Longrightarrow> P st'"
proof (induction M a m st rule: sample_loop.induct)
  case (1 M a m st)
  from "1.prems"(1) obtain n where n: "get_avg st a = Inr n"
    by (subst (asm) sample_loop.simps) (auto split: sum.splits)
  show ?case
  proof (cases "real (length (avg_sampled_nodes n)) < m")
    case True
    with "1.prems"(1) n obtain st1 where s1: "sample_once M a st = Inr st1"
      and l1: "sample_loop M a m st1 = Inr st'"
      by (subst (asm) sample_loop.simps) (auto split: sum.splits)
    from "1.IH" [OF n True s1 l1 step [OF "1.prems"(2) s1]] show ?thesis .
  next
    case False
    with "1.prems"(1) n have "st' = st"
      by (subst (asm) sample_loop.simps) simp
    with "1.prems"(2) show ?thesis by simp
  qed
qed

lemma active_nodes_preserves:
  assumes step: "\<And>M a st st'. P st \<Longrightarrow> sample_once M a st = Inr st' \<Longrightarrow> P st'"
    and "active_nodes M a m st = Inr (active, st1)" and "P st"
  shows "P st1"
proof -
  from assms(2) obtain n where n: "get_avg st a = Inr n"
    by (auto simp: active_nodes_def split: sum.splits)
  show ?thesis
  proof (cases "real (length (avg_sampled_nodes n)) > bval m")
    case True
    with assms(2) n have "st1 = st"
      by (auto simp: active_nodes_def split: budget.splits)
    with assms(3) show ?thesis by simp
  next
    case False
    with assms(2) n have "sample_loop M a (bval m) st = Inr st1"
      by (auto simp: active_nodes_def split: sum.splits)
    from sample_loop_preserves [of P, OF step this assms(3)] show ?thesis .
  qed
qed

lemma runs_preserve:
  assumes step: "\<And>M a st st'. P st \<Longrightarrow> sample_once M a st = Inr st' \<Longrightarrow> P st'"
  shows
  "AvgNode_run M f a m e st = Inr (v, st') \<Longrightarrow> P st \<Longrightarrow> P st'"
  "run_uniques M f ucs m e g mu st = Inr (v, st') \<Longrightarrow> P st \<Longrightarrow> P st'"
  "MaxNode_run M f c m e st = Inr (v, st') \<Longrightarrow> P st \<Longrightarrow> P st'"
  "elim_loop M f n cs k U muo e st = Inr (res, st') \<Longrightarrow> P st \<Longrightarrow> P st'"
  "run_candidates M f bs k e st = Inr (mus, st') \<Longrightarrow> P st \<Longrightarrow> P st'"
proof (induction M f a m e st and M f ucs m e g mu st and M f c m e st
         and M f n cs k U muo e st and M f bs k e st
       arbitrary: v st' and v st' and v st' and res st' and mus st'
       rule: AvgNode_run_run_uniques_MaxNode_run_elim_loop_run_candidates.induct)
  case (1 M a m epsilon st)
  then show ?case by simp
next
  case (2 M f a m epsilon st)
  from "2.prems"(1) show ?case
  proof (cases rule: AvgNode_run_SucE)
    case (exit n)
    with "2.prems"(2) show ?thesis by simp
  next
    case (sample n active st1 mu st2)
    from "2.IH" [OF sample(1,2,3,4) refl sample(5)
           active_nodes_preserves [of P, OF step sample(4) "2.prems"(2)]]
      avg_return_store [OF sample(6)]
    show ?thesis by simp
  qed
next
  case (3 M f m epsilon g mu st)
  then show ?case by simp
next
  case (4 M f u c ucs m epsilon g mu st)
  from "4.prems"(1) obtain nu st1 where r: "g \<noteq> 0" "bval m \<noteq> 0"
      "MaxNode_run M f u (IntB (int c)) (epsilon / g) st = Inr (nu, st1)"
      "run_uniques M f ucs m epsilon g (mu + real c / bval m * nu) st1 = Inr (v, st')"
    by (rule run_uniques_ConsE)
  from "4.IH"(2) [OF r(1,3) refl r(2,4) "4.IH"(1) [OF r(1,3) "4.prems"(2)]] show ?case .
next
  case (5 M c m epsilon st)
  then show ?case by simp
next
  case (6 M f c m epsilon st)
  from "6.prems"(1) show ?case
  proof (cases rule: MaxNode_run_SucE)
    case (many n candidates mu st1)
    from "6.IH"(1) [OF many(1,2) "6.prems"(2)] many(5) show ?thesis by simp
  next
    case (one n b bs mu st1)
    from "6.IH"(2) [OF one(1,2) refl refl one(3) refl one(4)
           "6.IH"(1) [OF one(1,2) "6.prems"(2)]]
    show ?thesis .
  qed
next
  case (7 M n candidates count U mu epsilon st)
  then show ?case by (simp split: if_splits)
next
  case (8 M f n candidates count U mu epsilon st)
  from "8.prems"(1) show ?case
  proof (cases rule: elim_loop_SucE)
    case stop
    with "8.prems"(2) show ?thesis by simp
  next
    case (round U' mu' st1 mu_sup)
    from "8.IH"(2) [OF round(1,2,3,4) refl round(5,6)
           "8.IH"(1) [OF round(1,2,3,4) "8.prems"(2)]]
    show ?thesis .
  qed
next
  case (9 M f count e st)
  then show ?case by simp
next
  case (10 M f b bs count e st)
  from "10.prems"(1) obtain v st1 rest where r:
      "AvgNode_run M f b (IntB (int count)) e st = Inr (v, st1)"
      "run_candidates M f bs count e st1 = Inr (rest, st')"
    by (rule run_candidates_ConsE)
  from "10.IH"(2) [OF r(1) refl r(2) "10.IH"(1) [OF r(1) "10.prems"(2)]] show ?case .
qed

subsection \<open>The reward sum and the sample count agree with the log\<close>

lemma sample_once_stats_ok:
  assumes "stats_ok st" and "sample_once M a st = Inr st'"
  shows "stats_ok st'"
proof -
  from assms(2) obtain n x s' c new where e:
    "get_avg st a = Inr n"
    "log st' = log st @ [(a, length (states st), x)]"
    "nodes st' = (nodes st)[a := AvgN (n\<lparr>avg_sampled_nodes := avg_sampled_nodes n @ [c],
                                         avg_r := avg_r n + x\<rparr>)] @ new"
    "(c \<in> set (avg_sampled_nodes n) \<and> new = []) \<or>
     (c = length (nodes st) \<and>
      (\<exists>cs. new = MaxN \<lparr>max_state = length (states st), max_gamma = avg_gamma n,
                        max_delta = avg_delta n, max_alpha = avg_alpha n, max_eta = avg_eta n,
                        max_K = length (get_actions M s'), max_children = cs\<rparr> #
                   map (\<lambda>act. AvgN (AvgNode_init (length (states st)) act (avg_gamma n)
                          (avg_delta n) (avg_alpha n) (avg_eta n) (length (get_actions M s'))))
                     (get_actions M s') \<and>
            snd ` set cs \<subseteq> {Suc (length (nodes st)) ..<
                               Suc (length (nodes st)) + length (get_actions M s')}))"
    by (rule sample_once_effect)
  from e(1) have a: "a < length (nodes st)" "nodes st ! a = AvgN n"
    by (simp_all add: get_avg_iff)
  from assms(1) have lg: "\<forall>e \<in> set (log st). fst e < length (nodes st)"
    and nd: "\<And>q m. get_avg st q = Inr m \<Longrightarrow>
        avg_r m = sum_list (rewards_of q (log st)) \<and>
        length (avg_sampled_nodes m) = length (rewards_of q (log st))"
    by (auto simp: stats_ok_def)
  have new_avg: "avg_sampled_nodes m = [] \<and> avg_r m = 0"
    if "AvgN m \<in> set new" for m
    using e(4) that by (auto simp: AvgNode_init_def)
  have l1: "\<forall>e \<in> set (log st'). fst e < length (nodes st')"
    using lg a e(2,3) by auto
  have l2: "avg_r m = sum_list (rewards_of q (log st')) \<and>
        length (avg_sampled_nodes m) = length (rewards_of q (log st'))"
    if q: "get_avg st' q = Inr m" for q m
  proof -
    from q have ql: "q < length (nodes st')" and qn: "nodes st' ! q = AvgN m"
      by (simp_all add: get_avg_iff)
    consider (same) "q = a" | (old) "q \<noteq> a" "q < length (nodes st)"
      | (fresh) "length (nodes st) \<le> q"
      by linarith
    then show ?thesis
    proof cases
      case same
      with qn e(3) a have "m = n\<lparr>avg_sampled_nodes := avg_sampled_nodes n @ [c],
                                         avg_r := avg_r n + x\<rparr>"
        by (simp add: nth_append)
      with nd [OF e(1)] same e(2) show ?thesis
        by (simp add: rewards_of_def)
    next
      case old
      with qn e(3) have "get_avg st q = Inr m"
        by (simp add: get_avg_iff nth_append)
      from nd [OF this] old e(2) show ?thesis
        by (simp add: rewards_of_def)
    next
      case fresh
      with qn ql e(3) have "new ! (q - length (nodes st)) = AvgN m"
        and "q - length (nodes st) < length new"
        by (auto simp: nth_append)
      then have "AvgN m \<in> set new"
        by (metis nth_mem)
      from new_avg [OF this] have m: "avg_sampled_nodes m = []" "avg_r m = 0" by simp_all
      from fresh lg a have "rewards_of q (log st') = []"
        by (auto simp: rewards_of_def e(2) filter_empty_conv)
      with m show ?thesis by simp
    qed
  qed
  show ?thesis
    unfolding stats_ok_def using l1 l2 by blast
qed

subsection \<open>The distinct children and their counts\<close>

lemma uniq_counts_snoc: "uniq_counts (xs @ [x]) = bump x (uniq_counts xs)"
  by (simp add: uniq_counts_def)

lemma bump_keys:
  "map fst (bump s ucs) = (if s \<in> fst ` set ucs then map fst ucs else map fst ucs @ [s])"
  by (induction s ucs rule: bump.induct) (auto simp: image_iff)

lemma bump_sum: "sum_list (map snd (bump s ucs)) = Suc (sum_list (map snd ucs))"
  by (induction s ucs rule: bump.induct) auto

lemma bump_entries:
  assumes "distinct (map fst ucs)" and "(u, c) \<in> set (bump s ucs)"
  shows "(u \<noteq> s \<and> (u, c) \<in> set ucs) \<or>
         (u = s \<and> ((\<exists>c'. (s, c') \<in> set ucs \<and> c = Suc c') \<or> (s \<notin> fst ` set ucs \<and> c = 1)))"
  using assms
proof (induction s ucs rule: bump.induct)
  case (1 s)
  then show ?case by simp
next
  case (2 s u' c' ucs)
  show ?case
  proof (cases "u' = s")
    case True
    with "2.prems" show ?thesis by (auto simp: image_iff)
  next
    case False
    with "2.prems" "2.IH" show ?thesis by (auto simp: image_iff)
  qed
qed

lemma uniq_counts_keys: "map fst (uniq_counts xs) = rev (remdups (rev xs))"
proof (induction xs rule: rev_induct)
  case Nil
  then show ?case by (simp add: uniq_counts_def)
next
  case (snoc x xs)
  have "fst ` set (uniq_counts xs) = set xs"
    using snoc.IH by (metis set_map set_remdups set_rev)
  with snoc.IH show ?case
    by (simp add: uniq_counts_snoc bump_keys)
qed

lemma uniq_counts_distinct: "distinct (map fst (uniq_counts xs))"
  by (simp add: uniq_counts_keys)

lemma uniq_counts_set: "fst ` set (uniq_counts xs) = set xs"
  by (metis uniq_counts_keys set_map set_remdups set_rev)

lemma uniq_counts_sum: "sum_list (map snd (uniq_counts xs)) = length xs"
  by (induction xs rule: rev_induct) (simp_all add: uniq_counts_def bump_sum)

lemma uniq_counts_count:
  "(u, c) \<in> set (uniq_counts xs) \<Longrightarrow> c = count_list xs u"
proof (induction xs arbitrary: u c rule: rev_induct)
  case Nil
  then show ?case by (simp add: uniq_counts_def)
next
  case (snoc x xs)
  from snoc.prems have "(u, c) \<in> set (bump x (uniq_counts xs))"
    by (simp add: uniq_counts_snoc)
  from bump_entries [OF uniq_counts_distinct this] show ?case
  proof (elim disjE conjE exE)
    assume "u \<noteq> x" "(u, c) \<in> set (uniq_counts xs)"
    with snoc.IH show ?thesis by simp
  next
    fix c' assume "u = x" "(x, c') \<in> set (uniq_counts xs)" "c = Suc c'"
    with snoc.IH [of x c'] show ?thesis by simp
  next
    assume "u = x" "x \<notin> fst ` set (uniq_counts xs)" "c = 1"
    then show ?thesis by (simp add: uniq_counts_set)
  qed
qed

lemma run_uniques_values:
  "run_uniques M f ucs m e g mu st = Inr (v, st') \<Longrightarrow>
   \<exists>vs. children_values M f ucs (e / g) st = Inr (vs, st') \<and> length vs = length ucs \<and>
        v = mu + weighted_sum (bval m) (map snd ucs) vs"
proof (induction ucs arbitrary: mu st)
  case Nil
  then show ?case by (simp add: weighted_sum_def)
next
  case (Cons uc ucs)
  obtain u c where uc: "uc = (u, c)" by (cases uc)
  from Cons.prems [unfolded uc] obtain nu st1 where r:
      "MaxNode_run M f u (IntB (int c)) (e / g) st = Inr (nu, st1)"
      "run_uniques M f ucs m e g (mu + real c / bval m * nu) st1 = Inr (v, st')"
    by (rule run_uniques_ConsE)
  from Cons.IH [OF r(2)] obtain vs where vs:
    "children_values M f ucs (e / g) st1 = Inr (vs, st')" "length vs = length ucs"
    "v = mu + real c / bval m * nu + weighted_sum (bval m) (map snd ucs) vs"
    by blast
  have "children_values M f (uc # ucs) (e / g) st = Inr (nu # vs, st')"
    using r(1) vs(1) by (simp add: uc)
  moreover have "v = mu + weighted_sum (bval m) (map snd (uc # ucs)) (nu # vs)"
    using vs(3) by (simp add: uc weighted_sum_def)
  ultimately show ?case using vs(2) by auto
qed

lemma sample_loop_exact:
  "sample_loop M a (real_of_int k) st = Inr st' \<Longrightarrow> int (n_sampled st a) \<le> k \<Longrightarrow>
   int (n_sampled st' a) = k"
proof (induction M a "real_of_int k" st rule: sample_loop.induct)
  case (1 M a st)
  from "1.prems"(1) obtain n where n: "get_avg st a = Inr n"
    by (subst (asm) sample_loop.simps) (auto split: sum.splits)
  then have ns: "n_sampled st a = length (avg_sampled_nodes n)"
    by (simp add: n_sampled_def)
  show ?case
  proof (cases "real (length (avg_sampled_nodes n)) < real_of_int k")
    case True
    with "1.prems"(1) n obtain st1 where s1: "sample_once M a st = Inr st1"
      and l1: "sample_loop M a (real_of_int k) st1 = Inr st'"
      by (subst (asm) sample_loop.simps) (auto split: sum.splits)
    from True have "int (length (avg_sampled_nodes n)) < k" by linarith
    with sample_once_n_sampled [OF s1] ns have "int (n_sampled st1 a) \<le> k" by simp
    from "1.hyps" [OF n True s1 l1 this] show ?thesis .
  next
    case False
    with "1.prems"(1) n have "st' = st"
      by (subst (asm) sample_loop.simps) simp
    moreover from False have "k \<le> int (length (avg_sampled_nodes n))" by linarith
    ultimately show ?thesis using "1.prems"(2) ns by simp
  qed
qed

subsection \<open>What a run of \<^verbatim>\<open>AvgNode.run\<close> works on\<close>

lemma grows_avg:
  assumes "grows st st'" and "get_avg st a = Inr n"
  obtains n' where "get_avg st' a = Inr n'" "avg_static n' = avg_static n"
    "prefix (avg_sampled_nodes n) (avg_sampled_nodes n')"
proof -
  from assms(2) have a: "a < length (nodes st)" "nodes st ! a = AvgN n"
    by (simp_all add: get_avg_iff)
  with assms(1) have le: "node_le (AvgN n) (nodes st' ! a)" and a': "a < length (nodes st')"
    by (auto simp: grows_def)
  show ?thesis
  proof (cases "nodes st' ! a")
    case (MaxN m)
    with le show ?thesis by (simp add: node_le_def)
  next
    case (AvgN n')
    with le a' that [of n'] show ?thesis by (simp add: node_le_def get_avg_iff)
  qed
qed

lemma avg_static_gamma:
  assumes "avg_static n' = avg_static n"
  shows "avg_gamma n' = avg_gamma n"
proof -
  from assms have "avg_gamma (avg_static n') = avg_gamma (avg_static n)" by simp
  then show ?thesis by (simp add: avg_static_def)
qed

lemma active_nodes_IntB:
  assumes "active_nodes M a (IntB k) st = Inr (active, st1)" and "0 \<le> k"
  shows "\<exists>n1. get_avg st1 a = Inr n1 \<and> active = take (nat k) (avg_sampled_nodes n1) \<and>
              length active = nat k"
proof -
  from assms(1) obtain n where n: "get_avg st a = Inr n"
    by (auto simp: active_nodes_def split: sum.splits)
  show ?thesis
  proof (cases "real (length (avg_sampled_nodes n)) > real_of_int k")
    case True
    with assms n have "st1 = st" "active = take (nat k) (avg_sampled_nodes n)"
      by (auto simp: active_nodes_def py_slice_to_def)
    moreover from True assms(2) have "nat k \<le> length (avg_sampled_nodes n)" by linarith
    ultimately show ?thesis using n by simp
  next
    case False
    with assms(1) n obtain n1 where sl: "sample_loop M a (real_of_int k) st = Inr st1"
      and n1: "get_avg st1 a = Inr n1" and act: "active = avg_sampled_nodes n1"
      by (auto simp: active_nodes_def split: sum.splits)
    from False n have "int (n_sampled st a) \<le> k"
      by (simp add: n_sampled_def)
    from sample_loop_exact [OF sl this] n1 have "int (length (avg_sampled_nodes n1)) = k"
      by (simp add: n_sampled_def)
    then have "length (avg_sampled_nodes n1) = nat k" by linarith
    with n1 act show ?thesis by simp
  qed
qed

lemma stats_ok_active:
  assumes "active_nodes M a m st = Inr (active, st1)" and "stats_ok st"
  shows "stats_ok st1"
  by (rule active_nodes_preserves [where P = stats_ok, OF _ assms])
     (erule (1) sample_once_stats_ok)

lemma stats_ok_run_uniques:
  assumes "run_uniques M f ucs m e g mu st = Inr (v, st')" and "stats_ok st"
  shows "stats_ok st'"
  by (rule runs_preserve(2) [where P = stats_ok, OF _ assms])
     (erule (1) sample_once_stats_ok)

lemma stats_ok_AvgNode_run:
  assumes "AvgNode_run M f a m e st = Inr (v, st')" and "stats_ok st"
  shows "stats_ok st'"
  by (rule runs_preserve(1) [where P = stats_ok, OF _ assms])
     (erule (1) sample_once_stats_ok)

section \<open>The claims\<close>

subsection \<open>C2: the elimination rate\<close>

text \<open>
  C2, as the code has it. For \<open>0 < \<gamma> < 1\<close> and \<open>\<epsilon> > 0\<close> the rate the planner derives is
  \<open>\<eta> = \<gamma>\<close> to the power \<open>1 / max(2, ln(1/\<epsilon>))\<close>; it lies strictly between 0 and 1 and is
  strictly above \<open>\<gamma>\<close>, not below it: the exponent is at most 1/2 and \<open>\<gamma> < 1\<close>.
\<close>

theorem planner_eta_range:
  assumes "0 < g" "g < 1" "0 < e"
  shows "planner_eta g e = g powr (1 / max 2 (ln (1 / e))) \<and>
         0 < planner_eta g e \<and> planner_eta g e < 1 \<and> g < planner_eta g e"
proof -
  define L where "L = max 2 (ln (1 / e))"
  have L: "2 \<le> L" by (simp add: L_def)
  have eq: "planner_eta g e = g powr (1 / L)"
    using assms(3) by (simp add: planner_eta_def py_max_np_log L_def)
  have x: "0 < 1 / L" "1 / L < 1" using L by auto
  have pos: "0 < g powr (1 / L)" using assms(1) by simp
  have lt1: "g powr (1 / L) < 1"
    using assms(1,2) x(1) powr01_less_one by simp
  have "g powr 1 < g powr (1 / L)"
    using x(2) assms(1,2) by (intro powr_less_mono') simp_all
  then have gt: "g < g powr (1 / L)"
    using assms(1) by simp
  show ?thesis using eq pos lt1 gt by (simp add: L_def)
qed

theorem planner_eta_range_witness:
  "planner_eta (1/2) (1/3) = (1/2) powr (1 / max 2 (ln (1 / (1/3)))) \<and>
   0 < planner_eta (1/2) (1/3) \<and> planner_eta (1/2) (1/3) < 1 \<and>
   1/2 < planner_eta (1/2) (1/3)"
  using planner_eta_range [of "1/2" "1/3"] by simp

text \<open>
  C2 as stated fails: for \<open>\<gamma> = 1/4\<close> and \<open>\<epsilon> = 1\<close> the rate is \<open>\<eta> = 1/2\<close>, which is not
  below \<open>\<gamma>\<close>.
\<close>

theorem planner_eta_not_below_gamma:
  "planner_eta (1/4) 1 = 1/2 \<and> \<not> planner_eta (1/4) 1 < 1/4"
proof -
  have "(1/4::real) powr (1/2) = sqrt (1/4)"
    by (rule powr_half_sqrt) simp
  also have "\<dots> = 1/2"
    by (simp add: real_sqrt_divide)
  finally have "planner_eta (1/4) 1 = 1/2"
    by (simp add: planner_eta_def py_max_def np_log_def)
  then show ?thesis by simp
qed

subsection \<open>C3: the planner's constructor validates nothing\<close>

text \<open>
  C3, as the code has it. \<^verbatim>\<open>TrailBlazer.__init__\<close> checks no range. It raises only where
  its arithmetic divides by zero: \<^verbatim>\<open>ZeroDivisionError\<close> for \<open>\<epsilon> = 0\<close> (line 107) and for
  \<open>\<delta> = 0\<close> (line 111). For every other \<open>\<epsilon>\<close>, every \<open>\<delta> > 0\<close> and every \<open>\<gamma> \<ge> 0\<close> other than
  1, among them \<open>\<gamma> > 1\<close>, \<open>\<delta> \<ge> 1\<close> and \<open>\<epsilon> < 0\<close>, it returns a planner with these very
  parameters. Construction never calls the generative model: the log of calls and the
  state objects are as before.
\<close>

theorem TrailBlazer_init_unvalidated:
  assumes "s < length (states st)" and "e \<noteq> 0" and "0 \<le> g" and "g \<noteq> 1" and "0 < d"
  shows "(\<exists>st'. TrailBlazer_init M s g d e st =
            Inr (\<lparr>tb_gamma = g, tb_delta = d, tb_epsilon = e, tb_eta = planner_eta g e,
                  tb_K = length (get_actions M (states st ! s)), tb_alpha = 0,
                  tb_m = planner_m g d e 0, tb_root = length (nodes st)\<rparr>, st') \<and>
            log st' = log st \<and> states st' = states st) \<and>
         TrailBlazer_init M s g d 0 st = Inl (ZeroDivisionError 107) \<and>
         TrailBlazer_init M s g 0 e st = Inl (ZeroDivisionError 111)"
proof -
  from MaxNode_init_succeeds [OF assms(1), of M g d 0 "planner_eta g e"]
  obtain st' where st': "MaxNode_init M s g d 0 (planner_eta g e) st = Inr (length (nodes st), st')"
    "states st' = states st" "log st' = log st"
    by blast
  with assms show ?thesis
    by (simp add: TrailBlazer_init_def get_state_def)
qed

theorem TrailBlazer_init_unvalidated_witness:
  "(0::nat) < length (states \<lparr>states = [2::nat], nodes = ([] :: nat node list), log = []\<rparr>) \<and>
   (- 1 :: real) \<noteq> 0 \<and> (0::real) \<le> 4 \<and> (4::real) \<noteq> 1 \<and> (0::real) < 1 \<and>
   (case TrailBlazer_init M_ex 0 4 1 (- 1) \<lparr>states = [2], nodes = [], log = []\<rparr> of
      Inl _ \<Rightarrow> False
    | Inr (tb, st') \<Rightarrow>
        tb_gamma tb = 4 \<and> tb_delta tb = 1 \<and> tb_epsilon tb = - 1 \<and>
        log st' = [] \<and> states st' = [2])"
  using TrailBlazer_init_unvalidated
    [of 0 "\<lparr>states = [2::nat], nodes = ([] :: nat node list), log = []\<rparr>" "- 1" 4 1 M_ex]
  by auto

text \<open>
  C3 as stated fails: with \<open>\<gamma> = 4\<close> and \<open>\<delta> = 1\<close>, both outside \<open>(0,1)\<close>, construction
  returns a planner (with \<open>\<eta> = 2\<close> and \<open>m = 0\<close>) and no error.
\<close>

theorem TrailBlazer_init_accepts_bad_parameters:
  "TrailBlazer_init M_ex 0 4 1 1 \<lparr>states = [2], nodes = [], log = []\<rparr> =
     Inr (\<lparr>tb_gamma = 4, tb_delta = 1, tb_epsilon = 1, tb_eta = 2, tb_K = 1, tb_alpha = 0,
           tb_m = 0, tb_root = 0\<rparr>, store_B)"
proof -
  have "(4::real) powr (1/2) = sqrt 4"
    by (rule powr_half_sqrt) simp
  then have eta: "planner_eta 4 1 = 2"
    by (simp add: planner_eta_def py_max_def np_log_def)
  have m: "planner_m 4 1 1 0 = 0"
    by (simp add: planner_m_def)
  show ?thesis
    by (simp add: TrailBlazer_init_def eta m MaxNode_init_def get_state_def M_ex_def
          AvgNode_init_def store_B_def)
qed

subsection \<open>C4: the budget the planner hands down\<close>

text \<open>
  C4 on the code, at \<open>\<gamma> = 1/2\<close>, \<open>\<delta> = 1/2\<close>, \<open>\<epsilon> = 1\<close>. The constructor computes
  \<open>m = ln 2 / ((1/2)\<^sup>2 \<cdot> 1\<^sup>2) = 4 ln 2\<close>, which lies strictly between 2 and 3, and
  \<^verbatim>\<open>TrailBlazer.run\<close> hands this very number, a float and not its ceiling 3, to the
  root's \<^verbatim>\<open>MaxNode.run\<close> as the budget.
\<close>

theorem TrailBlazer_budget_not_rounded:
  "TrailBlazer_init M_ex 0 (1/2) (1/2) 1 \<lparr>states = [2], nodes = [], log = []\<rparr> =
     Inr (tb_C, store_C) \<and>
   tb_m tb_C = 4 * ln 2 \<and> 2 < tb_m tb_C \<and> tb_m tb_C < 3 \<and>
   TrailBlazer_run M_ex f tb_C store_C =
     MaxNode_run M_ex f 0 (FloatB (4 * ln 2)) (1/2) store_C"
proof -
  have m: "planner_m (1/2) (1/2) 1 0 = 4 * ln 2"
    by (simp add: planner_m_def power2_eq_square)
  have init: "TrailBlazer_init M_ex 0 (1/2) (1/2) 1 \<lparr>states = [2], nodes = [], log = []\<rparr> =
     Inr (tb_C, store_C)"
    by (simp add: TrailBlazer_init_def MaxNode_init_def get_state_def M_ex_def
          AvgNode_init_def store_C_def tb_C_def)
  have run: "TrailBlazer_run M_ex f tb_C store_C =
     MaxNode_run M_ex f 0 (FloatB (4 * ln 2)) (1/2) store_C"
    by (simp add: TrailBlazer_run_def tb_C_def m)
  from ln2_bounds have "2 < 4 * ln (2::real)" "4 * ln (2::real) < 3"
    by simp_all
  with init run m show ?thesis
    by (simp add: tb_C_def)
qed

subsection \<open>C6: the early exit of \<^verbatim>\<open>AvgNode.run\<close>\<close>

text \<open>
  C6. On an \<^verbatim>\<open>AvgNode\<close> whose \<open>\<gamma>\<close> is not 1 (so that \<open>1/(1-\<gamma>)\<close> is a number), a call with
  \<open>\<epsilon> \<ge> 1/(1-\<gamma>)\<close> returns 0 for every budget and leaves the whole store as it was: no
  call of the generative model is logged, and the sample cache and the reward sum of the
  node, like everything else, are unchanged. One unit of fuel is enough.
\<close>

theorem AvgNode_run_early_exit:
  assumes "get_avg st a = Inr n" and "avg_gamma n \<noteq> 1"
    and "epsilon \<ge> 1 / (1 - avg_gamma n)"
  shows "AvgNode_run M (Suc f) a m epsilon st = Inr (0, st)"
  using assms by simp

theorem AvgNode_run_early_exit_witness:
  "get_avg store_A 1 = Inr (AvgNode_init 0 0 (1/4) (1/2) 0 (1/2) 1) \<and>
   avg_gamma (AvgNode_init 0 0 (1/4) (1/2) 0 (1/2) 1 :: nat AvgNode) \<noteq> 1 \<and>
   (2::real) \<ge> 1 / (1 - avg_gamma (AvgNode_init 0 0 (1/4) (1/2) 0 (1/2) 1 :: nat AvgNode)) \<and>
   AvgNode_run M_ex (Suc 0) 1 (IntB 5) 2 store_A = Inr (0, store_A)"
proof -
  have n: "get_avg store_A 1 = Inr (AvgNode_init 0 0 (1/4) (1/2) 0 (1/2) 1)"
    by (simp add: get_avg_def store_A_def AvgNode_init_def)
  have g: "avg_gamma (AvgNode_init 0 0 (1/4) (1/2) 0 (1/2) 1 :: nat AvgNode) \<noteq> 1"
    by (simp add: AvgNode_init_def)
  have e: "(2::real) \<ge> 1 / (1 - avg_gamma (AvgNode_init 0 0 (1/4) (1/2) 0 (1/2) 1 :: nat AvgNode))"
    by (simp add: AvgNode_init_def)
  from AvgNode_run_early_exit [OF n g e, of M_ex 0 "IntB 5"] n g e show ?thesis
    by simp
qed

end
